theory Spec2Isabelle
  imports Main "HOL-Library.Sublist"
begin

section \<open>Errors\<close>

text \<open>
  Every exception the modelled code can raise is a value.  A failed \<^verbatim>\<open>assert\<close> is
  Python's \<^verbatim>\<open>AssertionError\<close> with the assertion's message (empty for a bare
  \<^verbatim>\<open>assert\<close>); a missing dictionary key is \<^verbatim>\<open>KeyError\<close>; subscripting
  \<^verbatim>\<open>None\<close> is \<^verbatim>\<open>TypeError\<close>; exceeding the interpreter's recursion limit is
  \<^verbatim>\<open>RecursionError\<close>; the two remaining ones are raised by the artifact resolver.
\<close>

datatype error =
    AssertionError string
  | KeyError string
  | TypeError
  | RecursionError
  | AuthenticationException string
  | RequestErrorException string

section \<open>Data model\<close>

text \<open>
  \<^verbatim>\<open>class Artifact(namedtuple('Artifact', ["sha1", "md5", "name", "id"]))\<close>.
  The same four fields are the keys of an artifact dictionary of a serialised
  document, where a field that is \<open>None\<close> is a key that is absent.
\<close>

record artifact =
  art_sha1 :: string
  art_md5 :: string
  art_name :: "string option"
  art_id :: "string option"

text \<open>A module dictionary of a document: \<^verbatim>\<open>{"id", "artifacts", "dependencies"}\<close>.\<close>

record module =
  mod_id :: string
  mod_artifacts :: "artifact list"
  mod_dependencies :: "artifact list"

text \<open>
  A non-empty build-info dictionary.  The empty dictionary \<^verbatim>\<open>{}\<close>, the only
  document that is false in a Python condition, is \<open>None\<close> of type
  \<open>build_info option\<close>.
\<close>

record build_info =
  bi_version :: string
  bi_name :: string
  bi_number :: string
  bi_type :: string
  bi_started :: string
  bi_modules :: "module list"
  bi_properties :: "(string \<times> string) list option"

section \<open>Insertion-ordered dictionaries\<close>

text \<open>
  A Python \<^verbatim>\<open>dict\<close> keeps its keys in insertion order; storing under a key that is
  present replaces the value and keeps the position.
\<close>

fun dict_set :: "('k \<times> 'v) list \<Rightarrow> 'k \<Rightarrow> 'v \<Rightarrow> ('k \<times> 'v) list" where
  "dict_set [] k v = [(k, v)]"
| "dict_set ((k', v') # kvs) k v =
     (if k' = k then (k', v) # kvs else (k', v') # dict_set kvs k v)"

section \<open>Merging documents\<close>

text \<open>\<^verbatim>\<open>art[cmp_key]\<close> on an artifact dictionary.\<close>

definition art_get :: "artifact \<Rightarrow> string \<Rightarrow> error + string" where
  "art_get a k =
     (if k = ''sha1'' then Inr (art_sha1 a)
      else if k = ''md5'' then Inr (art_md5 a)
      else if k = ''name'' then (case art_name a of None \<Rightarrow> Inl (KeyError k) | Some v \<Rightarrow> Inr v)
      else if k = ''id'' then (case art_id a of None \<Rightarrow> Inl (KeyError k) | Some v \<Rightarrow> Inr v)
      else Inl (KeyError k))"

text \<open>
  The \<^verbatim>\<open>key\<close> argument of \<^verbatim>\<open>merge_artifacts\<close>: one of the two literals
  \<^verbatim>\<open>"artifacts"\<close> and \<^verbatim>\<open>"dependencies"\<close> its caller passes.
\<close>

datatype coll_key = Artifacts | Dependencies

fun mod_get :: "module \<Rightarrow> coll_key \<Rightarrow> artifact list" where
  "mod_get m Artifacts = mod_artifacts m"
| "mod_get m Dependencies = mod_dependencies m"

text \<open>\<^verbatim>\<open>ret = {it[cmp_key]: it for it in lhs[key]}\<close>, from the dictionary built so far.\<close>

fun index_by :: "string \<Rightarrow> artifact list \<Rightarrow> (string \<times> artifact) list
    \<Rightarrow> error + (string \<times> artifact) list" where
  "index_by cmp_key [] ret = Inr ret"
| "index_by cmp_key (it # its) ret =
     (case art_get it cmp_key of
        Inl e \<Rightarrow> Inl e
      | Inr k \<Rightarrow> index_by cmp_key its (dict_set ret k it))"

text \<open>The message of the assertion in \<^verbatim>\<open>merge_artifacts\<close>.\<close>

definition conflict_message :: "string \<Rightarrow> string \<Rightarrow> string \<Rightarrow> string \<Rightarrow> string" where
  "conflict_message cmp_key a b k =
     ''('' @ cmp_key @ '') '' @ a @ '' != '' @ b @ '' for sha1='' @ k"

text \<open>
  The loop over \<^verbatim>\<open>rhs[key]\<close>.  Where the key is present, the assertion compares
  \<^verbatim>\<open>art[cmp_key]\<close> with \<^verbatim>\<open>ret[art_cmp_key][cmp_key]\<close>, as the source does.
\<close>

fun merge_loop :: "string \<Rightarrow> artifact list \<Rightarrow> (string \<times> artifact) list
    \<Rightarrow> error + (string \<times> artifact) list" where
  "merge_loop cmp_key [] ret = Inr ret"
| "merge_loop cmp_key (art # arts) ret =
     (case art_get art cmp_key of
        Inl e \<Rightarrow> Inl e
      | Inr art_cmp_key \<Rightarrow>
          (case map_of ret art_cmp_key of
             Some it \<Rightarrow>
               (case art_get it cmp_key of
                  Inl e \<Rightarrow> Inl e
                | Inr other \<Rightarrow>
                    if art_cmp_key = other then merge_loop cmp_key arts ret
                    else Inl (AssertionError
                           (conflict_message cmp_key art_cmp_key other art_cmp_key)))
           | None \<Rightarrow> merge_loop cmp_key arts (dict_set ret art_cmp_key art)))"

definition merge_artifacts :: "module \<Rightarrow> module \<Rightarrow> coll_key \<Rightarrow> string
    \<Rightarrow> error + artifact list" where
  "merge_artifacts lhs rhs key cmp_key =
     (case index_by cmp_key (mod_get lhs key) [] of
        Inl e \<Rightarrow> Inl e
      | Inr ret \<Rightarrow>
          (case merge_loop cmp_key (mod_get rhs key) ret of
             Inl e \<Rightarrow> Inl e
           | Inr ret' \<Rightarrow> Inr (map snd ret')))"

text \<open>
  \<^verbatim>\<open>find_module\<close> returns the first module with the given id, or appends a new
  empty one and returns that.  The module it returns is given by its position in
  the document's list, which the caller then stores into.
\<close>

fun find_index :: "module list \<Rightarrow> string \<Rightarrow> nat option" where
  "find_index [] module_id = None"
| "find_index (it # its) module_id =
     (if mod_id it = module_id then Some 0
      else map_option Suc (find_index its module_id))"

definition new_module :: "string \<Rightarrow> module" where
  "new_module module_id = \<lparr>mod_id = module_id, mod_artifacts = [], mod_dependencies = []\<rparr>"

definition find_module :: "build_info \<Rightarrow> string \<Rightarrow> nat \<times> build_info" where
  "find_module build_info module_id =
     (case find_index (bi_modules build_info) module_id of
        Some i \<Rightarrow> (i, build_info)
      | None \<Rightarrow> (length (bi_modules build_info),
                 build_info\<lparr>bi_modules := bi_modules build_info @ [new_module module_id]\<rparr>))"

text \<open>One round of the loop of \<^verbatim>\<open>merge_buildinfo\<close>, then the loop.\<close>

definition merge_module :: "build_info \<Rightarrow> module \<Rightarrow> error + build_info" where
  "merge_module lhs rhs_module =
     (let (i, lhs1) = find_module lhs (mod_id rhs_module);
          lhs_module = bi_modules lhs1 ! i
      in case merge_artifacts lhs_module rhs_module Artifacts ''name'' of
           Inl e \<Rightarrow> Inl e
         | Inr arts \<Rightarrow>
             (let lhs_module2 = lhs_module\<lparr>mod_artifacts := arts\<rparr>
              in case merge_artifacts lhs_module2 rhs_module Dependencies ''id'' of
                   Inl e \<Rightarrow> Inl e
                 | Inr deps \<Rightarrow>
                     Inr (lhs1\<lparr>bi_modules :=
                            (bi_modules lhs1)[i := lhs_module2\<lparr>mod_dependencies := deps\<rparr>]\<rparr>)))"

fun merge_modules :: "build_info \<Rightarrow> module list \<Rightarrow> error + build_info" where
  "merge_modules lhs [] = Inr lhs"
| "merge_modules lhs (rhs_module # rest) =
     (case merge_module lhs rhs_module of
        Inl e \<Rightarrow> Inl e
      | Inr lhs' \<Rightarrow> merge_modules lhs' rest)"

definition merge_buildinfo :: "build_info option \<Rightarrow> build_info option
    \<Rightarrow> error + build_info option" where
  "merge_buildinfo lhs rhs =
     (case lhs of
        None \<Rightarrow> Inr rhs
      | Some l \<Rightarrow>
          (case rhs of
             None \<Rightarrow> Inr lhs
           | Some r \<Rightarrow>
               if bi_version l \<noteq> bi_version r then Inl (AssertionError [])
               else if bi_name l \<noteq> bi_name r then Inl (AssertionError [])
               else if bi_number l \<noteq> bi_number r then Inl (AssertionError [])
               else (case merge_modules l (bi_modules r) of
                       Inl e \<Rightarrow> Inl e
                     | Inr l' \<Rightarrow> Inr (Some l'))))"

section \<open>Well-formed documents\<close>

text \<open>
  The keys of a list of artifact dictionaries, when every one has the key.
\<close>

fun keys_of :: "string \<Rightarrow> artifact list \<Rightarrow> string list option" where
  "keys_of cmp_key [] = Some []"
| "keys_of cmp_key (a # as) =
     (case art_get a cmp_key of
        Inl e \<Rightarrow> None
      | Inr k \<Rightarrow> map_option ((#) k) (keys_of cmp_key as))"

text \<open>
  A collection is conflict-free when every entry has the key and no two entries
  share it; a module when its artifacts are so by \<^verbatim>\<open>name\<close> and its dependencies by
  \<^verbatim>\<open>id\<close>; a document when its module ids are unique and its modules conflict-free.
\<close>

definition unique_keys :: "string \<Rightarrow> artifact list \<Rightarrow> bool" where
  "unique_keys cmp_key as =
     (case keys_of cmp_key as of None \<Rightarrow> False | Some ks \<Rightarrow> distinct ks)"

definition wf_module :: "module \<Rightarrow> bool" where
  "wf_module m \<longleftrightarrow>
     unique_keys ''name'' (mod_artifacts m) \<and> unique_keys ''id'' (mod_dependencies m)"

definition wf_doc :: "build_info \<Rightarrow> bool" where
  "wf_doc d \<longleftrightarrow> distinct (map mod_id (bi_modules d)) \<and> list_all wf_module (bi_modules d)"

definition compatible :: "build_info \<Rightarrow> build_info \<Rightarrow> bool" where
  "compatible l r \<longleftrightarrow>
     bi_version l = bi_version r \<and> bi_name l = bi_name r \<and> bi_number l = bi_number r"

section \<open>The merge as the specification words it\<close>

text \<open>
  The specification's merge of two keyed collections: the entries of the left side,
  then the entries of the right side whose key the left side lacks.
\<close>

definition union_by_key :: "string \<Rightarrow> artifact list \<Rightarrow> artifact list \<Rightarrow> artifact list" where
  "union_by_key cmp_key as bs =
     as @ filter (\<lambda>b. art_get b cmp_key \<notin> (\<lambda>a. art_get a cmp_key) ` set as) bs"

definition merged_module :: "module \<Rightarrow> module \<Rightarrow> module" where
  "merged_module lm rm =
     lm\<lparr>mod_artifacts := union_by_key ''name'' (mod_artifacts lm) (mod_artifacts rm),
        mod_dependencies := union_by_key ''id'' (mod_dependencies lm) (mod_dependencies rm)\<rparr>"

definition merged_modules :: "module list \<Rightarrow> module list \<Rightarrow> module list" where
  "merged_modules ls rs =
     map (\<lambda>lm. case find (\<lambda>rm. mod_id rm = mod_id lm) rs of
                 None \<Rightarrow> lm
               | Some rm \<Rightarrow> merged_module lm rm) ls
     @ filter (\<lambda>rm. mod_id rm \<notin> mod_id ` set ls) rs"

section \<open>Invariant of the index dictionary\<close>

text \<open>Every entry of the dictionary \<^verbatim>\<open>ret\<close> is stored under its own key.\<close>

definition indexed :: "string \<Rightarrow> (string \<times> artifact) list \<Rightarrow> bool" where
  "indexed ck ret \<longleftrightarrow> (\<forall>(k, a) \<in> set ret. art_get a ck = Inr k)"

section \<open>Example documents\<close>

definition art_of :: "string \<Rightarrow> string \<Rightarrow> artifact" where
  "art_of s n = \<lparr>art_sha1 = s, art_md5 = ''1'', art_name = Some n, art_id = None\<rparr>"

definition dep_of :: "string \<Rightarrow> string \<Rightarrow> artifact" where
  "dep_of s i = \<lparr>art_sha1 = s, art_md5 = ''2'', art_name = None, art_id = Some i\<rparr>"

definition doc_of :: "string \<Rightarrow> module list \<Rightarrow> build_info" where
  "doc_of n ms = \<lparr>bi_version = ''1.0.1'', bi_name = n, bi_number = ''1'',
     bi_type = ''GENERIC'', bi_started = ''2020-01-01T00:00:00.000Z'', bi_modules = ms,
     bi_properties = None\<rparr>"

text \<open>
  Module \<^verbatim>\<open>"m"\<close> with an artifact named \<^verbatim>\<open>"a"\<close>: once with \<^verbatim>\<open>sha1 = "X"\<close>, once with
  \<^verbatim>\<open>sha1 = "Y"\<close>.
\<close>

definition doc_x :: build_info where
  "doc_x = doc_of ''build''
     [\<lparr>mod_id = ''m'', mod_artifacts = [art_of ''X'' ''a''], mod_dependencies = [dep_of ''D'' ''d'']\<rparr>]"

definition doc_y :: build_info where
  "doc_y = doc_of ''build''
     [\<lparr>mod_id = ''m'', mod_artifacts = [art_of ''Y'' ''a''], mod_dependencies = [dep_of ''D'' ''d'']\<rparr>]"

text \<open>The same module with another artifact, a document with another module, and one of another build.\<close>

definition doc_b :: build_info where
  "doc_b = doc_of ''build''
     [\<lparr>mod_id = ''m'', mod_artifacts = [art_of ''X'' ''a'', art_of ''B'' ''b''], mod_dependencies = []\<rparr>]"

definition doc_n :: build_info where
  "doc_n = doc_of ''build''
     [\<lparr>mod_id = ''n'', mod_artifacts = [art_of ''N'' ''c''], mod_dependencies = [dep_of ''D'' ''d'']\<rparr>]"

definition doc_other :: build_info where
  "doc_other = doc_of ''other'' []"


section \<open>Artifacts as set elements\<close>

text \<open>
  \<^verbatim>\<open>Artifact\<close> is a \<^verbatim>\<open>namedtuple\<close> subclass that overrides \<^verbatim>\<open>__hash__\<close> only:
  \<^verbatim>\<open>return hash(self.sha1)\<close>.  Equality is the one it inherits from \<^verbatim>\<open>tuple\<close>: field
  by field.  The built-in hash of strings is a parameter \<open>h\<close>.
\<close>

definition artifact_eq :: "artifact \<Rightarrow> artifact \<Rightarrow> bool" where
  "artifact_eq a b \<longleftrightarrow>
     art_sha1 a = art_sha1 b \<and> art_md5 a = art_md5 b
     \<and> art_name a = art_name b \<and> art_id a = art_id b"

definition artifact_hash :: "(string \<Rightarrow> int) \<Rightarrow> artifact \<Rightarrow> int" where
  "artifact_hash h a = h (art_sha1 a)"

text \<open>
  A Python \<^verbatim>\<open>set\<close> holds an element once: adding \<open>x\<close> changes nothing when the set
  holds a \<open>y\<close> with the same hash that is equal to \<open>x\<close>.  The set is the list of its
  elements; \<^verbatim>\<open>s.update(xs)\<close> adds the elements of \<open>xs\<close> one by one.
\<close>

fun set_add :: "(string \<Rightarrow> int) \<Rightarrow> artifact \<Rightarrow> artifact list \<Rightarrow> artifact list" where
  "set_add h x [] = [x]"
| "set_add h x (y # ys) =
     (if artifact_hash h y = artifact_hash h x \<and> artifact_eq y x then y # ys
      else y # set_add h x ys)"

definition set_update :: "(string \<Rightarrow> int) \<Rightarrow> artifact list \<Rightarrow> artifact list \<Rightarrow> artifact list" where
  "set_update h s xs = fold (set_add h) xs s"

definition zero_hash :: "string \<Rightarrow> int" where
  "zero_hash s = 0"

section \<open>The lockfile graph and the closure of a node\<close>

text \<open>
  A node of \<^verbatim>\<open>contents["graph_lock"]["nodes"]\<close>: its \<^verbatim>\<open>pref\<close>, its \<^verbatim>\<open>requires\<close>
  (an ordered mapping from slot to node uid, \<open>None\<close> when the key is absent) and its
  \<^verbatim>\<open>modified\<close> flag.  The nodes are a dictionary from uid to node.
\<close>

record node =
  node_pref :: string
  node_requires :: "(string \<times> string) list option"
  node_modified :: bool

type_synonym graph = "string \<rightharpoonup> node"

text \<open>
  The resolver \<^verbatim>\<open>func(pref, add_prefix=True, use_id=True)\<close>: the set of artifacts of
  a reference, or the exception it raises.  A set of artifacts is a HOL set, whose
  union is \<^verbatim>\<open>update\<close> (lemma \<open>set_set_update\<close>).
\<close>

type_synonym resolver = "string \<Rightarrow> error + artifact set"

text \<open>\<^verbatim>\<open>node_content.get("requires", {}).items()\<close>.\<close>

definition requires_items :: "node \<Rightarrow> (string \<times> string) list" where
  "requires_items node_content =
     (case node_requires node_content of None \<Rightarrow> [] | Some r \<Rightarrow> r)"

text \<open>
  The loop of \<^verbatim>\<open>_gather_deps\<close> over the required nodes; \<open>rec\<close> is the recursive call.
  The second component of the state lists the uids of the nodes whose reference has
  been handed to the resolver, in the order of the calls.
\<close>

fun gather_loop :: "(string \<Rightarrow> string list \<Rightarrow> error + artifact set \<times> string list)
    \<Rightarrow> (string \<times> string) list \<Rightarrow> artifact set \<times> string list
    \<Rightarrow> error + artifact set \<times> string list" where
  "gather_loop rec [] acc = Inr acc"
| "gather_loop rec ((slot, id_node) # rest) (artifacts, calls) =
     (case rec id_node calls of
        Inl e \<Rightarrow> Inl e
      | Inr (deps, calls') \<Rightarrow> gather_loop rec rest (artifacts \<union> deps, calls'))"

text \<open>
  \<^verbatim>\<open>_gather_deps(node_uid, contents, func)\<close>.  The first argument is the number of
  nested calls the interpreter still allows: where it is used up, Python raises
  \<^verbatim>\<open>RecursionError\<close>.  A uid that is not a node makes \<^verbatim>\<open>.get(node_uid)\<close> return
  \<^verbatim>\<open>None\<close>, and subscripting it raises \<^verbatim>\<open>TypeError\<close>.
\<close>

fun gather_deps :: "nat \<Rightarrow> graph \<Rightarrow> resolver \<Rightarrow> string \<Rightarrow> string list
    \<Rightarrow> error + artifact set \<times> string list" where
  "gather_deps 0 contents func node_uid calls = Inl RecursionError"
| "gather_deps (Suc depth) contents func node_uid calls =
     (case contents node_uid of
        None \<Rightarrow> Inl TypeError
      | Some node_content \<Rightarrow>
          (case func (node_pref node_content) of
             Inl e \<Rightarrow> Inl e
           | Inr artifacts \<Rightarrow>
               gather_loop (gather_deps depth contents func) (requires_items node_content)
                 (artifacts, calls @ [node_uid])))"

text \<open>The dependency edges of a graph, and the nodes a node reaches.\<close>

definition edges :: "graph \<Rightarrow> (string \<times> string) set" where
  "edges contents =
     {(u, c). \<exists>nd. contents u = Some nd \<and> c \<in> snd ` set (requires_items nd)}"

text \<open>
  The number of dependency paths from \<open>u\<close> to \<open>v\<close> that have at most \<open>depth\<close> nodes; two
  slots that require the same node give two paths.
\<close>

fun count_paths :: "nat \<Rightarrow> graph \<Rightarrow> string \<Rightarrow> string \<Rightarrow> nat" where
  "count_paths 0 contents u v = 0"
| "count_paths (Suc depth) contents u v =
     (case contents u of
        None \<Rightarrow> 0
      | Some node_content \<Rightarrow>
          (if u = v then 1 else 0)
          + sum_list (map (\<lambda>(slot, c). count_paths depth contents c v)
              (requires_items node_content)))"

text \<open>The union of the resolver's results over the nodes reachable from \<open>u\<close>.\<close>

definition closure_of :: "graph \<Rightarrow> resolver \<Rightarrow> string \<Rightarrow> artifact set" where
  "closure_of contents func u =
     \<Union> {a. \<exists>v nd. (u, v) \<in> (edges contents)\<^sup>* \<and> contents v = Some nd
                \<and> func (node_pref nd) = Inr a}"

text \<open>
  A graph the traversal can walk: every required uid is a node, and the resolver
  succeeds on every node.
\<close>

definition walkable :: "graph \<Rightarrow> resolver \<Rightarrow> bool" where
  "walkable contents func \<longleftrightarrow>
     (\<forall>(u, c) \<in> edges contents. c \<in> dom contents)
     \<and> (\<forall>nd \<in> ran contents. \<exists>a. func (node_pref nd) = Inr a)"

section \<open>Example graphs\<close>

definition node_of :: "string \<Rightarrow> string list \<Rightarrow> node" where
  "node_of p cs =
     \<lparr>node_pref = p, node_requires = Some (map (\<lambda>c. (c, c)) cs), node_modified = False\<rparr>"

text \<open>The diamond: root requires A and B, both require C, which has no \<^verbatim>\<open>requires\<close>.\<close>

definition diamond :: graph where
  "diamond = map_of
     [(''root'', node_of ''root/1.0'' [''A'', ''B'']),
      (''A'', node_of ''a/1.0'' [''C'']),
      (''B'', node_of ''b/1.0'' [''C'']),
      (''C'', \<lparr>node_pref = ''c/1.0'', node_requires = None, node_modified = False\<rparr>)]"

text \<open>The cycle: X requires Y and Y requires X.\<close>

definition cycle_xy :: graph where
  "cycle_xy = map_of
     [(''X'', node_of ''x/1.0'' [''Y'']),
      (''Y'', node_of ''y/1.0'' [''X''])]"

text \<open>A resolver that knows one file of every reference.\<close>

definition resolve_one :: resolver where
  "resolve_one pref = Inr {dep_of pref (pref @ '' :: conanfile.py'')}"

section \<open>The environment snapshot\<close>

text \<open>
  The part of \<^verbatim>\<open>BuildInfoCreator.create\<close> that assembles the \<^verbatim>\<open>properties\<close> entry:
  \<^verbatim>\<open>excluded = ["secret", "key", "password"]\<close> and the dictionary comprehension over
  \<^verbatim>\<open>os.environ.items()\<close> with the filter \<^verbatim>\<open>k not in excluded\<close>, under
  \<^verbatim>\<open>if not self._skip_env\<close>.  The environment is the list of its items, whose keys
  are distinct; the result is \<open>None\<close> when the document gets no \<^verbatim>\<open>properties\<close> key.
\<close>

definition excluded :: "string list" where
  "excluded = [''secret'', ''key'', ''password'']"

definition environment :: "(string \<times> string) list \<Rightarrow> (string \<times> string) list" where
  "environment environ =
     map (\<lambda>(k, v). (''buildInfo.env.'' @ k, v)) (filter (\<lambda>(k, v). k \<notin> set excluded) environ)"

definition create_properties :: "bool \<Rightarrow> (string \<times> string) list \<Rightarrow> (string \<times> string) list option" where
  "create_properties skip_env environ =
     (if \<not> skip_env then Some (environment environ) else None)"

text \<open>Two artifacts with the same \<^verbatim>\<open>sha1\<close>, and a resolver that gives every reference the same content.\<close>

definition resolve_same :: resolver where
  "resolve_same pref = Inr {dep_of ''S'' (pref @ '' :: conanfile.py'')}"

section \<open>Documents as objects of a store\<close>

text \<open>
  \<^verbatim>\<open>merge_buildinfo\<close> mutates its left argument: \<^verbatim>\<open>find_module\<close> appends to the list
  \<^verbatim>\<open>build_info["modules"]\<close> and the loop assigns to the keys of a module dictionary.
  What these writes reach depends on which objects the two documents share, so the
  documents are laid out in a store.  An address is an index into the list of
  objects; a new object gets the next index.  The objects that are written to are
  the module dictionaries and the lists of modules; a document dictionary refers to
  its list of modules, a list of modules to its module dictionaries.  The lists of
  artifacts are values: the code never writes into one, it assigns a new list.
\<close>

record doc_obj =
  do_version :: string
  do_name :: string
  do_number :: string
  do_type :: string
  do_started :: string
  do_modules :: nat
  do_properties :: "(string \<times> string) list option"

datatype obj = Module module | ModuleList "nat list" | Document doc_obj | EmptyDict

type_synonym heap = "obj list"

definition hget :: "heap \<Rightarrow> nat \<Rightarrow> obj option" where
  "hget h a = (if a < length h then Some (h ! a) else None)"

text \<open>
  The search loop of \<^verbatim>\<open>find_module\<close> over the references of the list: the reference
  of the first module with the id, if any.  An object of another kind where a module
  is expected is a \<^verbatim>\<open>TypeError\<close>.
\<close>

fun find_ref :: "heap \<Rightarrow> nat list \<Rightarrow> string \<Rightarrow> error + nat option" where
  "find_ref h [] module_id = Inr None"
| "find_ref h (it # its) module_id =
     (case hget h it of
        Some (Module m) \<Rightarrow>
          if mod_id m = module_id then Inr (Some it) else find_ref h its module_id
      | _ \<Rightarrow> Inl TypeError)"

text \<open>
  \<^verbatim>\<open>find_module(build_info, module_id)\<close> on the store: the reference of the module
  found, or of a new module dictionary appended to the list object in place.
\<close>

definition find_module_h :: "heap \<Rightarrow> nat \<Rightarrow> string \<Rightarrow> error + nat \<times> heap" where
  "find_module_h h build_info module_id =
     (case hget h build_info of
        Some (Document d) \<Rightarrow>
          (case hget h (do_modules d) of
             Some (ModuleList refs) \<Rightarrow>
               (case find_ref h refs module_id of
                  Inl e \<Rightarrow> Inl e
                | Inr (Some it) \<Rightarrow> Inr (it, h)
                | Inr None \<Rightarrow>
                    Inr (length h,
                         (h @ [Module (new_module module_id)])
                           [do_modules d := ModuleList (refs @ [length h])]))
           | _ \<Rightarrow> Inl TypeError)
      | _ \<Rightarrow> Inl TypeError)"

text \<open>
  The two assignments of a round of the loop of \<^verbatim>\<open>merge_buildinfo\<close>, for the module
  \<^verbatim>\<open>find_module\<close> returned.  Both module dictionaries are read from the store at the
  moment the source reads them, so a module that is its own partner is seen as it
  is after the first assignment.
\<close>

definition assign_merged :: "heap \<Rightarrow> nat \<Rightarrow> nat \<Rightarrow> error + heap" where
  "assign_merged h1 lhs_module rhs_module =
     (case (hget h1 lhs_module, hget h1 rhs_module) of
        (Some (Module lm), Some (Module rm1)) \<Rightarrow>
          (case merge_artifacts lm rm1 Artifacts ''name'' of
             Inl e \<Rightarrow> Inl e
           | Inr arts \<Rightarrow>
               (let h2 = h1[lhs_module := Module (lm\<lparr>mod_artifacts := arts\<rparr>)]
                in case (hget h2 lhs_module, hget h2 rhs_module) of
                     (Some (Module lm2), Some (Module rm2)) \<Rightarrow>
                       (case merge_artifacts lm2 rm2 Dependencies ''id'' of
                          Inl e \<Rightarrow> Inl e
                        | Inr deps \<Rightarrow>
                            Inr (h2[lhs_module := Module (lm2\<lparr>mod_dependencies := deps\<rparr>)]))
                   | _ \<Rightarrow> Inl TypeError))
      | _ \<Rightarrow> Inl TypeError)"

text \<open>One round of the loop: the lookup, then the two assignments.\<close>

definition merge_step_h :: "heap \<Rightarrow> nat \<Rightarrow> nat \<Rightarrow> error + heap" where
  "merge_step_h h lhs rhs_module =
     (case hget h rhs_module of
        Some (Module rm) \<Rightarrow>
          (case find_module_h h lhs (mod_id rm) of
             Inl e \<Rightarrow> Inl e
           | Inr (lhs_module, h1) \<Rightarrow> assign_merged h1 lhs_module rhs_module)
      | _ \<Rightarrow> Inl TypeError)"

text \<open>
  The loop runs over the references the right list holds when the loop starts: a
  round never changes the list it takes its module from (lemma
  \<open>merge_step_h_keeps_list\<close>), so this is the list the iterator sees throughout.
\<close>

fun merge_loop_h :: "heap \<Rightarrow> nat \<Rightarrow> nat list \<Rightarrow> error + heap" where
  "merge_loop_h h lhs [] = Inr h"
| "merge_loop_h h lhs (rhs_module # rest) =
     (case merge_step_h h lhs rhs_module of
        Inl e \<Rightarrow> Inl e
      | Inr h' \<Rightarrow> merge_loop_h h' lhs rest)"

text \<open>
  \<^verbatim>\<open>merge_buildinfo(lhs, rhs)\<close> on references: the reference it returns and the store
  it leaves.
\<close>

definition merge_buildinfo_h :: "heap \<Rightarrow> nat \<Rightarrow> nat \<Rightarrow> error + nat \<times> heap" where
  "merge_buildinfo_h h lhs rhs =
     (case hget h lhs of
        Some EmptyDict \<Rightarrow> Inr (rhs, h)
      | Some (Document l) \<Rightarrow>
          (case hget h rhs of
             Some EmptyDict \<Rightarrow> Inr (lhs, h)
           | Some (Document r) \<Rightarrow>
               if do_version l \<noteq> do_version r then Inl (AssertionError [])
               else if do_name l \<noteq> do_name r then Inl (AssertionError [])
               else if do_number l \<noteq> do_number r then Inl (AssertionError [])
               else (case hget h (do_modules r) of
                       Some (ModuleList refs) \<Rightarrow>
                         (case merge_loop_h h lhs refs of
                            Inl e \<Rightarrow> Inl e
                          | Inr h' \<Rightarrow> Inr (lhs, h'))
                     | _ \<Rightarrow> Inl TypeError)
           | _ \<Rightarrow> Inl TypeError)
      | _ \<Rightarrow> Inl TypeError)"

text \<open>The document a reference stands for: \<open>None\<close> where the store is ill-typed.\<close>

definition module_at :: "heap \<Rightarrow> nat \<Rightarrow> module option" where
  "module_at h a = (case hget h a of Some (Module m) \<Rightarrow> Some m | _ \<Rightarrow> None)"

definition modules_at :: "heap \<Rightarrow> nat list \<Rightarrow> module list" where
  "modules_at h refs = map (\<lambda>a. the (module_at h a)) refs"

definition list_at :: "heap \<Rightarrow> nat \<Rightarrow> nat list option" where
  "list_at h a = (case hget h a of Some (ModuleList refs) \<Rightarrow> Some refs | _ \<Rightarrow> None)"

definition doc_at :: "heap \<Rightarrow> nat \<Rightarrow> build_info option option" where
  "doc_at h a =
     (case hget h a of
        Some EmptyDict \<Rightarrow> Some None
      | Some (Document d) \<Rightarrow>
          (case list_at h (do_modules d) of
             Some refs \<Rightarrow>
               if list_all (\<lambda>r. module_at h r \<noteq> None) refs
               then Some (Some \<lparr>bi_version = do_version d, bi_name = do_name d,
                       bi_number = do_number d, bi_type = do_type d,
                       bi_started = do_started d, bi_modules = modules_at h refs,
                       bi_properties = do_properties d\<rparr>)
               else None
           | None \<Rightarrow> None)
      | _ \<Rightarrow> None)"

text \<open>The objects of a document: the dictionary, its list of modules, its modules.\<close>

definition objects_of :: "heap \<Rightarrow> nat \<Rightarrow> nat set" where
  "objects_of h a =
     (case hget h a of
        Some (Document d) \<Rightarrow>
          {a, do_modules d}
          \<union> (case list_at h (do_modules d) of Some refs \<Rightarrow> set refs | None \<Rightarrow> {})
      | _ \<Rightarrow> {a})"

text \<open>
  Two non-empty documents are separate when both are well-typed, their lists of
  modules are two objects, no module dictionary belongs to both, and the left list
  holds no module dictionary twice: as two documents read from two files are.
\<close>

definition document_at :: "heap \<Rightarrow> nat \<Rightarrow> doc_obj option" where
  "document_at h a = (case hget h a of Some (Document d) \<Rightarrow> Some d | _ \<Rightarrow> None)"

definition separate :: "heap \<Rightarrow> nat \<Rightarrow> nat \<Rightarrow> bool" where
  "separate h lhs rhs =
     (case document_at h lhs of
        None \<Rightarrow> False
      | Some l \<Rightarrow>
          (case document_at h rhs of
             None \<Rightarrow> False
           | Some r \<Rightarrow>
               (case list_at h (do_modules l) of
                  None \<Rightarrow> False
                | Some ls \<Rightarrow>
                    (case list_at h (do_modules r) of
                       None \<Rightarrow> False
                     | Some rs \<Rightarrow>
                         do_modules l \<noteq> do_modules r \<and> set ls \<inter> set rs = {}
                         \<and> distinct ls
                         \<and> list_all (\<lambda>a. module_at h a \<noteq> None) (ls @ rs)))))"

text \<open>The invariant of the loop: the left document, its list, and the objects not to be written.\<close>

definition heap_inv :: "heap \<Rightarrow> nat \<Rightarrow> doc_obj \<Rightarrow> nat list \<Rightarrow> nat set \<Rightarrow> bool" where
  "heap_inv h lhs d ls P \<longleftrightarrow>
     hget h lhs = Some (Document d) \<and> hget h (do_modules d) = Some (ModuleList ls)
     \<and> distinct ls \<and> list_all (\<lambda>a. module_at h a \<noteq> None) ls
     \<and> (\<forall>a \<in> P. a < length h \<and> a \<noteq> do_modules d \<and> a \<notin> set ls)"

definition doc_value :: "doc_obj \<Rightarrow> module list \<Rightarrow> build_info" where
  "doc_value d ms =
     \<lparr>bi_version = do_version d, bi_name = do_name d, bi_number = do_number d,
      bi_type = do_type d, bi_started = do_started d, bi_modules = ms,
      bi_properties = do_properties d\<rparr>"

text \<open>The module that the two assignments of a round leave, as a value.\<close>

definition merge_pair :: "module \<Rightarrow> module \<Rightarrow> error + module" where
  "merge_pair lm rm =
     (case merge_artifacts lm rm Artifacts ''name'' of
        Inl e \<Rightarrow> Inl e
      | Inr arts \<Rightarrow>
          (case merge_artifacts (lm\<lparr>mod_artifacts := arts\<rparr>) rm Dependencies ''id'' of
             Inl e \<Rightarrow> Inl e
           | Inr deps \<Rightarrow> Inr (lm\<lparr>mod_artifacts := arts, mod_dependencies := deps\<rparr>)))"

text \<open>
  A store with one document, at address 2, whose module holds two artifacts of the
  same name; and two separate documents, at addresses 2 and 5.
\<close>

definition doc_obj_of :: "nat \<Rightarrow> doc_obj" where
  "doc_obj_of ms = \<lparr>do_version = ''1.0.1'', do_name = ''build'', do_number = ''1'',
     do_type = ''GENERIC'', do_started = ''2020-01-01T00:00:00.000Z'', do_modules = ms,
     do_properties = None\<rparr>"

definition heap_dup :: heap where
  "heap_dup =
     [Module \<lparr>mod_id = ''m'', mod_artifacts = [art_of ''X'' ''a'', art_of ''Y'' ''a''],
        mod_dependencies = []\<rparr>,
      ModuleList [0],
      Document (doc_obj_of 1)]"

definition heap_two :: heap where
  "heap_two =
     [Module \<lparr>mod_id = ''m'', mod_artifacts = [art_of ''X'' ''a''], mod_dependencies = []\<rparr>,
      ModuleList [0],
      Document (doc_obj_of 1),
      Module \<lparr>mod_id = ''n'', mod_artifacts = [art_of ''N'' ''c''], mod_dependencies = []\<rparr>,
      ModuleList [3],
      Document (doc_obj_of 4)]"

section \<open>Properties of \<^verbatim>\<open>merge_artifacts\<close>\<close>

lemma dict_set_fresh: "k \<notin> fst ` set kvs \<Longrightarrow> dict_set kvs k v = kvs @ [(k, v)]"
  by (induction kvs) auto

lemma keys_of_Some_iff:
  "keys_of ck as = Some ks \<longleftrightarrow> map (\<lambda>a. art_get a ck) as = map Inr ks"
  by (induction as arbitrary: ks) (auto split: sum.splits)

lemma index_by_fresh:
  "keys_of ck as = Some ks \<Longrightarrow> distinct ks \<Longrightarrow> set ks \<inter> fst ` set ret = {}
   \<Longrightarrow> index_by ck as ret = Inr (ret @ zip ks as)"
proof (induction as arbitrary: ks ret)
  case Nil
  then show ?case by simp
next
  case (Cons a as)
  then obtain k ks' where k: "art_get a ck = Inr k" "keys_of ck as = Some ks'" "ks = k # ks'"
    by (auto split: sum.splits)
  with Cons.prems have "k \<notin> fst ` set ret" "distinct ks'" "k \<notin> set ks'"
    "set ks' \<inter> fst ` set (ret @ [(k, a)]) = {}"
    by auto
  with Cons.IH[OF k(2), of "ret @ [(k, a)]"] k show ?case
    by (simp add: dict_set_fresh)
qed

lemma indexed_dict_set:
  "indexed ck ret \<Longrightarrow> art_get a ck = Inr k \<Longrightarrow> indexed ck (dict_set ret k a)"
  unfolding indexed_def by (induction ret) (auto split: if_splits)

lemma indexed_map_of:
  "indexed ck ret \<Longrightarrow> map_of ret k = Some it \<Longrightarrow> art_get it ck = Inr k"
  unfolding indexed_def by (auto dest: map_of_SomeD)

lemma index_by_indexed:
  "indexed ck ret \<Longrightarrow> index_by ck as ret = Inr ret' \<Longrightarrow> indexed ck ret'"
  by (induction as arbitrary: ret) (auto split: sum.splits intro: indexed_dict_set)

lemma art_get_error: "art_get a k = Inl e \<Longrightarrow> e = KeyError k"
  by (simp add: art_get_def split: if_splits option.splits)

lemma index_by_no_assert: "index_by ck as ret \<noteq> Inl (AssertionError m)"
  by (induction as arbitrary: ret) (auto split: sum.splits dest: art_get_error)

lemma merge_loop_no_assert:
  "indexed ck ret \<Longrightarrow> merge_loop ck bs ret \<noteq> Inl (AssertionError m)"
proof (induction bs arbitrary: ret)
  case Nil
  then show ?case by simp
next
  case (Cons b bs)
  show ?case
  proof (cases "art_get b ck")
    case (Inl e)
    then show ?thesis by (auto dest: art_get_error)
  next
    case (Inr k)
    show ?thesis
    proof (cases "map_of ret k")
      case None
      with Inr Cons.IH[of "dict_set ret k b"] Cons.prems show ?thesis
        by (simp add: indexed_dict_set)
    next
      case (Some it)
      have "art_get it ck = Inr k" by (rule indexed_map_of[OF Cons.prems Some])
      with Inr Some Cons.IH[OF Cons.prems] show ?thesis by simp
    qed
  qed
qed

lemma merge_artifacts_no_assert:
  "merge_artifacts lhs rhs key ck \<noteq> Inl (AssertionError m)"
proof -
  have i0: "indexed ck []" by (simp add: indexed_def)
  show ?thesis
  proof (cases "index_by ck (mod_get lhs key) []")
    case (Inl e)
    then show ?thesis
      using index_by_no_assert[of ck "mod_get lhs key" "[]" m]
      by (auto simp: merge_artifacts_def)
  next
    case (Inr ret)
    then have "indexed ck ret" by (rule index_by_indexed[OF i0])
    then have "merge_loop ck (mod_get rhs key) ret \<noteq> Inl (AssertionError m)"
      by (rule merge_loop_no_assert)
    with Inr show ?thesis
      by (auto simp: merge_artifacts_def split: sum.splits)
  qed
qed

lemma merge_loop_wf:
  "keys_of ck bs = Some kb \<Longrightarrow> distinct kb \<Longrightarrow> indexed ck ret
   \<Longrightarrow> merge_loop ck bs ret = Inr (ret @ filter (\<lambda>(k, b). k \<notin> fst ` set ret) (zip kb bs))"
proof (induction bs arbitrary: kb ret)
  case Nil
  then show ?case by simp
next
  case (Cons b bs)
  then obtain k kb' where k: "art_get b ck = Inr k" "keys_of ck bs = Some kb'" "kb = k # kb'"
    by (auto split: sum.splits)
  with Cons.prems have d: "distinct kb'" "k \<notin> set kb'" by auto
  show ?case
  proof (cases "map_of ret k")
    case None
    then have fresh: "k \<notin> fst ` set ret" by (simp add: map_of_eq_None_iff)
    have ix: "indexed ck (ret @ [(k, b)])"
      using Cons.prems(3) k(1) by (auto simp: indexed_def)
    have "filter (\<lambda>(k', b'). k' \<notin> fst ` set (ret @ [(k, b)])) (zip kb' bs)
        = filter (\<lambda>(k', b'). k' \<notin> fst ` set ret) (zip kb' bs)"
      using d(2) by (intro filter_cong) (auto dest: set_zip_leftD)
    with Cons.IH[OF k(2) d(1) ix] None k fresh show ?thesis
      by (simp add: dict_set_fresh)
  next
    case (Some it)
    then have "k \<in> fst ` set ret" by (metis map_of_eq_None_iff option.distinct(1))
    moreover from Cons.prems(3) Some have "art_get it ck = Inr k" by (rule indexed_map_of)
    ultimately show ?thesis
      using Cons.IH[OF k(2) d(1) Cons.prems(3)] k Some by simp
  qed
qed

lemma map_snd_filter_zip:
  "keys_of ck bs = Some kb \<Longrightarrow>
   map snd (filter (\<lambda>(k, b). P (Inr k)) (zip kb bs)) = filter (\<lambda>b. P (art_get b ck)) bs"
  by (induction bs arbitrary: kb) (auto split: sum.splits)

lemma keys_of_length: "keys_of ck as = Some ks \<Longrightarrow> length ks = length as"
  by (induction as arbitrary: ks) (auto split: sum.splits)

lemma merge_artifacts_wf:
  assumes "unique_keys ck (mod_get lhs key)" "unique_keys ck (mod_get rhs key)"
  shows "merge_artifacts lhs rhs key ck = Inr (union_by_key ck (mod_get lhs key) (mod_get rhs key))"
proof -
  from assms obtain ka kb where
    ka: "keys_of ck (mod_get lhs key) = Some ka" "distinct ka" and
    kb: "keys_of ck (mod_get rhs key) = Some kb" "distinct kb"
    by (auto simp: unique_keys_def split: option.splits)
  let ?as = "mod_get lhs key" and ?bs = "mod_get rhs key"
  have len: "length ka = length ?as" by (rule keys_of_length[OF ka(1)])
  have ix: "index_by ck ?as [] = Inr (zip ka ?as)"
    using index_by_fresh[OF ka, of "[]"] by simp
  have ixd: "indexed ck (zip ka ?as)"
    using index_by_indexed[OF _ ix] by (simp add: indexed_def)
  have fs: "fst ` set (zip ka ?as) = set ka"
    using len by (metis map_fst_zip set_map)
  have img: "(\<lambda>a. art_get a ck) ` set ?as = Inr ` set ka"
    using ka(1) by (metis keys_of_Some_iff set_map)
  have ml: "merge_loop ck ?bs (zip ka ?as)
      = Inr (zip ka ?as @ filter (\<lambda>(k, b). Inr k \<notin> (Inr ` set ka :: (error + string) set)) (zip kb ?bs))"
    using merge_loop_wf[OF kb ixd] by (simp add: fs image_iff)
  show ?thesis
    unfolding merge_artifacts_def union_by_key_def
    using ix ml len map_snd_filter_zip[OF kb(1), of "\<lambda>x. x \<notin> Inr ` set ka"]
    by (simp add: img)
qed

section \<open>Properties of \<^verbatim>\<open>merge_buildinfo\<close> on well-formed documents\<close>

lemma find_index_None: "find_index ms mid = None \<longleftrightarrow> mid \<notin> mod_id ` set ms"
  by (induction ms) auto

lemma find_index_Some:
  "find_index ms mid = Some i \<Longrightarrow> i < length ms \<and> mod_id (ms ! i) = mid"
  by (induction ms arbitrary: i) (auto split: if_splits)

lemma find_index_distinct:
  "distinct (map mod_id ms) \<Longrightarrow> i < length ms \<Longrightarrow> find_index ms (mod_id (ms ! i)) = Some i"
proof (induction ms arbitrary: i)
  case Nil
  then show ?case by simp
next
  case (Cons m ms)
  show ?case
  proof (cases i)
    case 0
    then show ?thesis by simp
  next
    case (Suc j)
    with Cons.prems have "j < length ms" "mod_id (ms ! j) \<noteq> mod_id m"
      by (auto simp: image_iff) (metis nth_mem)
    with Cons Suc show ?thesis by simp
  qed
qed

lemma unique_keys_iff:
  "unique_keys ck xs \<longleftrightarrow>
     distinct (map (\<lambda>a. art_get a ck) xs) \<and> (\<forall>a \<in> set xs. \<exists>k. art_get a ck = Inr k)"
proof (induction xs)
  case Nil
  then show ?case by (simp add: unique_keys_def)
next
  case (Cons x xs)
  show ?case
  proof (cases "art_get x ck")
    case (Inl e)
    then show ?thesis by (auto simp: unique_keys_def)
  next
    case (Inr k)
    show ?thesis
    proof (cases "keys_of ck xs")
      case None
      with Cons Inr show ?thesis by (auto simp: unique_keys_def)
    next
      case (Some ks)
      then have "map (\<lambda>a. art_get a ck) xs = map Inr ks" by (simp add: keys_of_Some_iff)
      then have "(\<lambda>a. art_get a ck) ` set xs = Inr ` set ks" by (metis set_map)
      then have "k \<in> set ks \<longleftrightarrow> Inr k \<in> (\<lambda>a. art_get a ck) ` set xs" by auto
      with Cons Inr Some show ?thesis by (auto simp: unique_keys_def)
    qed
  qed
qed

lemma union_by_key_Nil: "union_by_key ck [] bs = bs"
  by (simp add: union_by_key_def)

lemma union_by_key_self: "union_by_key ck as as = as"
  by (simp add: union_by_key_def)

lemma unique_keys_union:
  "unique_keys ck as \<Longrightarrow> unique_keys ck bs \<Longrightarrow> unique_keys ck (union_by_key ck as bs)"
  by (auto simp: unique_keys_iff union_by_key_def distinct_map_filter) (metis imageI)

lemma wf_merged_module: "wf_module lm \<Longrightarrow> wf_module rm \<Longrightarrow> wf_module (merged_module lm rm)"
  by (simp add: wf_module_def merged_module_def unique_keys_union)

lemma merged_module_self: "merged_module m m = m"
  by (simp add: merged_module_def union_by_key_self)

lemma mod_id_merged [simp]: "mod_id (merged_module lm rm) = mod_id lm"
  by (simp add: merged_module_def)

lemma merge_module_present:
  assumes "find_index (bi_modules l) (mod_id rm) = Some i"
    and "wf_module (bi_modules l ! i)" "wf_module rm"
  shows "merge_module l rm =
    Inr (l\<lparr>bi_modules := (bi_modules l)[i := merged_module (bi_modules l ! i) rm]\<rparr>)"
proof -
  let ?lm = "bi_modules l ! i"
  have a: "merge_artifacts ?lm rm Artifacts ''name''
      = Inr (union_by_key ''name'' (mod_artifacts ?lm) (mod_artifacts rm))"
    using merge_artifacts_wf[of "''name''" ?lm Artifacts rm] assms(2,3)
    by (simp add: wf_module_def)
  have d: "merge_artifacts (?lm\<lparr>mod_artifacts := arts\<rparr>) rm Dependencies ''id''
      = Inr (union_by_key ''id'' (mod_dependencies ?lm) (mod_dependencies rm))" for arts
    using merge_artifacts_wf[of "''id''" "?lm\<lparr>mod_artifacts := arts\<rparr>" Dependencies rm] assms(2,3)
    by (simp add: wf_module_def)
  show ?thesis
    by (simp add: merge_module_def find_module_def assms(1) a d merged_module_def Let_def)
qed

lemma merge_module_absent:
  assumes "find_index (bi_modules l) (mod_id rm) = None" and "wf_module rm"
  shows "merge_module l rm = Inr (l\<lparr>bi_modules := bi_modules l @ [rm]\<rparr>)"
proof -
  let ?lm = "new_module (mod_id rm)"
  have a: "merge_artifacts ?lm rm Artifacts ''name'' = Inr (mod_artifacts rm)"
    using merge_artifacts_wf[of "''name''" ?lm Artifacts rm] assms(2)
    by (simp add: wf_module_def new_module_def unique_keys_def union_by_key_Nil)
  have d: "merge_artifacts (?lm\<lparr>mod_artifacts := arts\<rparr>) rm Dependencies ''id''
      = Inr (mod_dependencies rm)" for arts
    using merge_artifacts_wf[of "''id''" "?lm\<lparr>mod_artifacts := arts\<rparr>" Dependencies rm] assms(2)
    by (simp add: wf_module_def new_module_def unique_keys_def union_by_key_Nil)
  have r: "?lm\<lparr>mod_artifacts := mod_artifacts rm,
            mod_dependencies := mod_dependencies rm\<rparr> = rm"
    by (simp add: new_module_def)
  show ?thesis
    by (simp add: merge_module_def find_module_def assms(1) a d Let_def r)
qed



lemma merged_modules_Nil: "merged_modules ls [] = ls"
  by (simp add: merged_modules_def)

lemma map_if_update:
  "distinct (map f xs) \<Longrightarrow> i < length xs
   \<Longrightarrow> map (\<lambda>x. if f (xs ! i) = f x then g x else x) xs = xs[i := g (xs ! i)]"
proof (rule nth_equalityI)
  show "length (map (\<lambda>x. if f (xs ! i) = f x then g x else x) xs) = length (xs[i := g (xs ! i)])"
    by simp
next
  fix j
  assume d: "distinct (map f xs)" and i: "i < length xs"
    and "j < length (map (\<lambda>x. if f (xs ! i) = f x then g x else x) xs)"
  then have j: "j < length xs" by simp
  have "f (xs ! i) = f (xs ! j) \<longleftrightarrow> i = j"
    using d i j by (metis distinct_conv_nth length_map nth_map)
  with i j show "map (\<lambda>x. if f (xs ! i) = f x then g x else x) xs ! j = xs[i := g (xs ! i)] ! j"
    by (auto simp: nth_list_update)
qed

lemma case_option_if:
  "(case (if c then a else b) of None \<Rightarrow> x | Some y \<Rightarrow> f y)
     = (if c then (case a of None \<Rightarrow> x | Some y \<Rightarrow> f y)
        else (case b of None \<Rightarrow> x | Some y \<Rightarrow> f y))"
  by simp

lemma merged_modules_single:
  "merged_modules ls [rm]
     = map (\<lambda>lm. if mod_id rm = mod_id lm then merged_module lm rm else lm) ls
       @ (if mod_id rm \<in> mod_id ` set ls then [] else [rm])"
  by (simp add: merged_modules_def case_option_if cong: if_cong)

lemma merged_modules_single_present:
  assumes "distinct (map mod_id ms)" "find_index ms (mod_id rm) = Some i"
  shows "merged_modules ms [rm] = ms[i := merged_module (ms ! i) rm]"
proof -
  from assms(2) have i: "i < length ms" "mod_id (ms ! i) = mod_id rm"
    by (auto dest: find_index_Some)
  then have "mod_id rm \<in> mod_id ` set ms" by (metis imageI nth_mem)
  moreover have "map (\<lambda>lm. if mod_id (ms ! i) = mod_id lm then merged_module lm rm else lm) ms
      = ms[i := merged_module (ms ! i) rm]"
    using assms(1) i(1) by (rule map_if_update)
  ultimately show ?thesis
    by (simp add: merged_modules_single i(2))
qed

lemma merged_modules_single_absent:
  assumes "find_index ms (mod_id rm) = None"
  shows "merged_modules ms [rm] = ms @ [rm]"
proof -
  from assms have n: "mod_id rm \<notin> mod_id ` set ms" by (simp add: find_index_None)
  then have "map (\<lambda>lm. if mod_id rm = mod_id lm then merged_module lm rm else lm) ms = ms"
    by (intro map_idI) auto
  with n show ?thesis by (simp add: merged_modules_single)
qed

lemma merge_module_spec:
  assumes "wf_doc l" "wf_module rm"
  shows "merge_module l rm = Inr (l\<lparr>bi_modules := merged_modules (bi_modules l) [rm]\<rparr>)"
proof (cases "find_index (bi_modules l) (mod_id rm)")
  case None
  then show ?thesis
    using merge_module_absent[OF None assms(2)] by (simp add: merged_modules_single_absent)
next
  case (Some i)
  then have "i < length (bi_modules l)" by (auto dest: find_index_Some)
  with assms(1) have "wf_module (bi_modules l ! i)"
    by (simp add: wf_doc_def list_all_length)
  from merge_module_present[OF Some this assms(2)] assms(1) Some show ?thesis
    by (simp add: merged_modules_single_present wf_doc_def)
qed

lemma ids_merged_modules:
  "map mod_id (merged_modules ls rs)
     = map mod_id ls @ filter (\<lambda>i. i \<notin> mod_id ` set ls) (map mod_id rs)"
  by (simp add: merged_modules_def filter_map comp_def split: option.splits cong: map_cong)

lemma wf_doc_merged:
  assumes "wf_doc l" "distinct (map mod_id rs)" "list_all wf_module rs"
  shows "wf_doc (l\<lparr>bi_modules := merged_modules (bi_modules l) rs\<rparr>)"
proof -
  have "distinct (map mod_id (merged_modules (bi_modules l) rs))"
    using assms(1,2) by (auto simp: ids_merged_modules wf_doc_def)
  moreover have "list_all wf_module (merged_modules (bi_modules l) rs)"
    using assms(1,3)
    by (auto simp: merged_modules_def wf_doc_def list_all_iff wf_merged_module
        split: option.splits dest!: find_Some_iff[THEN iffD1] intro: nth_mem)
  ultimately show ?thesis by (simp add: wf_doc_def)
qed

lemma ids_set_merged_single:
  "mod_id ` set (merged_modules ls [rm])
     = mod_id ` set ls \<union> (if mod_id rm \<in> mod_id ` set ls then {} else {mod_id rm})"
proof -
  have "set (map mod_id (merged_modules ls [rm]))
      = mod_id ` set ls \<union> (if mod_id rm \<in> mod_id ` set ls then {} else {mod_id rm})"
    by (simp add: ids_merged_modules)
  then show ?thesis by simp
qed

lemma merged_modules_Cons:
  assumes "mod_id rm \<notin> mod_id ` set rs"
  shows "merged_modules (merged_modules ls [rm]) rs = merged_modules ls (rm # rs)"
proof -
  have nf: "find (\<lambda>r. mod_id r = mod_id rm) rs = None"
    using assms by (simp add: find_None_iff) (metis imageI)
  have "map (\<lambda>lm. case find (\<lambda>r. mod_id r = mod_id lm) rs of
                     None \<Rightarrow> lm | Some r \<Rightarrow> merged_module lm r)
          (map (\<lambda>lm. if mod_id rm = mod_id lm then merged_module lm rm else lm) ls)
      = map (\<lambda>lm. if mod_id rm = mod_id lm then merged_module lm rm
                   else case find (\<lambda>r. mod_id r = mod_id lm) rs of
                     None \<Rightarrow> lm | Some r \<Rightarrow> merged_module lm r) ls"
    using nf by (auto simp: comp_def)
  moreover have "filter (\<lambda>r. mod_id r \<notin> mod_id ` set (merged_modules ls [rm])) rs
      = filter (\<lambda>r. mod_id r \<notin> mod_id ` set ls) rs"
  proof (rule filter_cong[OF refl])
    fix r assume "r \<in> set rs"
    with assms have "mod_id r \<noteq> mod_id rm" by (metis imageI)
    then show "(mod_id r \<notin> mod_id ` set (merged_modules ls [rm])) = (mod_id r \<notin> mod_id ` set ls)"
      by (simp add: ids_set_merged_single)
  qed
  ultimately show ?thesis
    using nf by (simp add: merged_modules_def case_option_if cong: if_cong)
qed

lemma merge_modules_spec:
  "wf_doc l \<Longrightarrow> distinct (map mod_id rs) \<Longrightarrow> list_all wf_module rs
   \<Longrightarrow> merge_modules l rs = Inr (l\<lparr>bi_modules := merged_modules (bi_modules l) rs\<rparr>)"
proof (induction rs arbitrary: l)
  case Nil
  then show ?case by (simp add: merged_modules_Nil)
next
  case (Cons rm rs)
  let ?l1 = "l\<lparr>bi_modules := merged_modules (bi_modules l) [rm]\<rparr>"
  from Cons.prems have rm: "wf_module rm" "mod_id rm \<notin> mod_id ` set rs"
    "distinct (map mod_id rs)" "list_all wf_module rs"
    by auto
  have step: "merge_module l rm = Inr ?l1"
    using Cons.prems(1) rm(1) by (rule merge_module_spec)
  have "wf_doc ?l1"
    using Cons.prems(1) rm(1) by (intro wf_doc_merged) auto
  from Cons.IH[OF this rm(3,4)] step show ?case
    by (simp add: merged_modules_Cons[OF rm(2)])
qed

lemma find_distinct:
  "distinct (map f xs) \<Longrightarrow> x \<in> set xs \<Longrightarrow> find (\<lambda>y. f y = f x) xs = Some x"
  by (induction xs) (auto simp: image_iff)

lemma merged_modules_self:
  assumes "distinct (map mod_id ms)"
  shows "merged_modules ms ms = ms"
proof -
  have "map (\<lambda>lm. case find (\<lambda>rm. mod_id rm = mod_id lm) ms of
                     None \<Rightarrow> lm | Some rm \<Rightarrow> merged_module lm rm) ms = ms"
    using assms by (intro map_idI) (simp add: find_distinct merged_module_self)
  then show ?thesis by (simp add: merged_modules_def)
qed

section \<open>The empty document is an identity of the merge\<close>

text \<open>
  Claim C6.  Merging the empty document with any document \<open>x\<close> returns \<open>x\<close>, and merging
  \<open>x\<close> with the empty document returns \<open>x\<close>: \<^verbatim>\<open>if not lhs or not rhs: return lhs or rhs\<close>.
\<close>

theorem merge_buildinfo_empty_identity:
  "merge_buildinfo None x = Inr x \<and> merge_buildinfo x None = Inr x"
  by (cases x) (simp_all add: merge_buildinfo_def)

section \<open>Properties of the traversal\<close>

subsection \<open>The calls of the resolver\<close>

lemma gather_loop_calls:
  assumes "\<And>c calls a calls'. c \<in> snd ` set items \<Longrightarrow> rec c calls = Inr (a, calls')
      \<Longrightarrow> \<exists>new. calls' = calls @ new \<and> (\<forall>v. count_list new v = cnt c v)"
    and "gather_loop rec items (arts, calls) = Inr (arts', calls')"
  shows "\<exists>new. calls' = calls @ new
      \<and> (\<forall>v. count_list new v = sum_list (map (\<lambda>(s, c). cnt c v) items))"
  using assms
proof (induction items arbitrary: arts calls)
  case Nil
  then show ?case by simp
next
  case (Cons it items)
  obtain slot c where it: "it = (slot, c)" by (cases it)
  from Cons.prems(2) it obtain deps calls1 where
    r: "rec c calls = Inr (deps, calls1)" and
    rest: "gather_loop rec items (arts \<union> deps, calls1) = Inr (arts', calls')"
    by (auto split: sum.splits)
  from Cons.prems(1)[of c calls deps calls1] it r obtain n1 where
    n1: "calls1 = calls @ n1" "\<forall>v. count_list n1 v = cnt c v"
    by auto
  have "\<exists>new. calls' = calls1 @ new
      \<and> (\<forall>v. count_list new v = sum_list (map (\<lambda>(s, c). cnt c v) items))"
    using Cons.prems(1) rest by (intro Cons.IH[of "arts \<union> deps" calls1]) auto
  then obtain n2 where
    n2: "calls' = calls1 @ n2" "\<forall>v. count_list n2 v = sum_list (map (\<lambda>(s, c). cnt c v) items)"
    by auto
  have "calls' = calls @ (n1 @ n2)" using n1 n2 by simp
  moreover have "\<forall>v. count_list (n1 @ n2) v = sum_list (map (\<lambda>(s, c). cnt c v) (it # items))"
    using n1 n2 it by simp
  ultimately show ?case by blast
qed

lemma gather_deps_calls:
  "gather_deps d g f u calls = Inr (arts, calls')
   \<Longrightarrow> \<exists>new. calls' = calls @ new \<and> (\<forall>v. count_list new v = count_paths d g u v)"
proof (induction d arbitrary: u calls arts calls')
  case 0
  then show ?case by simp
next
  case (Suc d)
  from Suc.prems obtain nd a where
    nd: "g u = Some nd" and a: "f (node_pref nd) = Inr a" and
    loop: "gather_loop (gather_deps d g f) (requires_items nd) (a, calls @ [u]) = Inr (arts, calls')"
    by (auto split: option.splits sum.splits)
  have "\<exists>new. calls' = (calls @ [u]) @ new
      \<and> (\<forall>v. count_list new v = sum_list (map (\<lambda>(s, c). count_paths d g c v) (requires_items nd)))"
    using loop by (rule gather_loop_calls[rotated]) (rule Suc.IH)
  then obtain new where
    new: "calls' = (calls @ [u]) @ new"
      "\<forall>v. count_list new v = sum_list (map (\<lambda>(s, c). count_paths d g c v) (requires_items nd))"
    by auto
  have "calls' = calls @ (u # new)" using new(1) by simp
  moreover have "\<forall>v. count_list (u # new) v = count_paths (Suc d) g u v"
    using new(2) nd by simp
  ultimately show ?case by blast
qed

subsection \<open>A larger recursion limit changes no result\<close>

lemma gather_loop_mono:
  assumes "\<And>c calls r. rec c calls = Inr r \<Longrightarrow> rec' c calls = Inr r"
    and "gather_loop rec items acc = Inr r"
  shows "gather_loop rec' items acc = Inr r"
  using assms(2)
proof (induction items arbitrary: acc)
  case Nil
  then show ?case by simp
next
  case (Cons it items)
  obtain slot c where it: "it = (slot, c)" by (cases it)
  obtain arts calls where acc: "acc = (arts, calls)" by (cases acc)
  from Cons.prems it acc obtain deps calls1 where
    r: "rec c calls = Inr (deps, calls1)" and
    rest: "gather_loop rec items (arts \<union> deps, calls1) = Inr r"
    by (auto split: sum.splits)
  from assms(1)[OF r] Cons.IH[OF rest] it acc show ?case by simp
qed

lemma gather_deps_Suc:
  "gather_deps d g f u calls = Inr r \<Longrightarrow> gather_deps (Suc d) g f u calls = Inr r"
proof (induction d arbitrary: u calls r)
  case 0
  then show ?case by simp
next
  case (Suc d)
  from Suc.prems obtain nd a where
    nd: "g u = Some nd" and a: "f (node_pref nd) = Inr a" and
    loop: "gather_loop (gather_deps d g f) (requires_items nd) (a, calls @ [u]) = Inr r"
    by (auto split: option.splits sum.splits)
  have "gather_loop (gather_deps (Suc d) g f) (requires_items nd) (a, calls @ [u]) = Inr r"
    using loop by (rule gather_loop_mono[rotated]) (rule Suc.IH)
  with nd a show ?case by (simp del: gather_deps.simps(2) add: gather_deps.simps(2)[of "Suc d"])
qed

lemma gather_deps_mono:
  "d \<le> d' \<Longrightarrow> gather_deps d g f u calls = Inr r \<Longrightarrow> gather_deps d' g f u calls = Inr r"
  by (induction d' rule: dec_induct) (auto intro: gather_deps_Suc simp del: gather_deps.simps)


subsection \<open>The set returned\<close>

lemma gather_loop_arts:
  assumes "\<And>c calls a calls'. c \<in> snd ` set items \<Longrightarrow> rec c calls = Inr (a, calls') \<Longrightarrow> a = S c"
    and "gather_loop rec items (arts, calls) = Inr (arts', calls')"
  shows "arts' = arts \<union> \<Union> (S ` snd ` set items)"
  using assms
proof (induction items arbitrary: arts calls)
  case Nil
  then show ?case by simp
next
  case (Cons it items)
  obtain slot c where it: "it = (slot, c)" by (cases it)
  from Cons.prems(2) it obtain deps calls1 where
    r: "rec c calls = Inr (deps, calls1)" and
    rest: "gather_loop rec items (arts \<union> deps, calls1) = Inr (arts', calls')"
    by (auto split: sum.splits)
  from Cons.prems(1)[of c calls deps calls1] it r have d: "deps = S c" by simp
  have "arts' = (arts \<union> deps) \<union> \<Union> (S ` snd ` set items)"
    using Cons.prems(1) rest by (intro Cons.IH[of "arts \<union> deps" calls1]) auto
  with d it show ?case by auto
qed

lemma edges_iff: "g u = Some nd \<Longrightarrow> (u, c) \<in> edges g \<longleftrightarrow> c \<in> snd ` set (requires_items nd)"
  by (simp add: edges_def)

lemma reach_unfold:
  assumes "g u = Some nd"
  shows "(u, v) \<in> (edges g)\<^sup>* \<longleftrightarrow>
    v = u \<or> (\<exists>c \<in> snd ` set (requires_items nd). (c, v) \<in> (edges g)\<^sup>*)"
proof
  assume "(u, v) \<in> (edges g)\<^sup>*"
  then show "v = u \<or> (\<exists>c \<in> snd ` set (requires_items nd). (c, v) \<in> (edges g)\<^sup>*)"
  proof (cases rule: converse_rtranclE)
    case base
    then show ?thesis by simp
  next
    case (step c)
    with assms have "c \<in> snd ` set (requires_items nd)" by (simp add: edges_def)
    with step show ?thesis by blast
  qed
next
  assume "v = u \<or> (\<exists>c \<in> snd ` set (requires_items nd). (c, v) \<in> (edges g)\<^sup>*)"
  then show "(u, v) \<in> (edges g)\<^sup>*"
  proof
    assume "v = u"
    then show ?thesis by simp
  next
    assume "\<exists>c \<in> snd ` set (requires_items nd). (c, v) \<in> (edges g)\<^sup>*"
    then obtain c where c: "c \<in> snd ` set (requires_items nd)" "(c, v) \<in> (edges g)\<^sup>*"
      by blast
    with assms have "(u, c) \<in> edges g" by (simp add: edges_def)
    then show ?thesis using c(2) by (rule converse_rtrancl_into_rtrancl)
  qed
qed

lemma closure_of_iff:
  "x \<in> closure_of g f u \<longleftrightarrow>
     (\<exists>v nd a. (u, v) \<in> (edges g)\<^sup>* \<and> g v = Some nd \<and> f (node_pref nd) = Inr a \<and> x \<in> a)"
  unfolding closure_of_def by blast

lemma closure_of_unfold:
  assumes "g u = Some nd" "f (node_pref nd) = Inr a"
  shows "closure_of g f u = a \<union> \<Union> (closure_of g f ` snd ` set (requires_items nd))"
proof (rule set_eqI)
  fix x
  let ?C = "snd ` set (requires_items nd)"
  have r: "\<And>v. (u, v) \<in> (edges g)\<^sup>* \<longleftrightarrow> v = u \<or> (\<exists>c \<in> ?C. (c, v) \<in> (edges g)\<^sup>*)"
    using assms(1) by (rule reach_unfold)
  have "x \<in> closure_of g f u \<longleftrightarrow>
      (\<exists>v nd' a'. (v = u \<or> (\<exists>c \<in> ?C. (c, v) \<in> (edges g)\<^sup>*))
         \<and> g v = Some nd' \<and> f (node_pref nd') = Inr a' \<and> x \<in> a')"
    unfolding closure_of_iff r ..
  also have "\<dots> \<longleftrightarrow> x \<in> a \<or> (\<exists>c \<in> ?C. x \<in> closure_of g f c)"
  proof
    assume "\<exists>v nd' a'. (v = u \<or> (\<exists>c \<in> ?C. (c, v) \<in> (edges g)\<^sup>*))
         \<and> g v = Some nd' \<and> f (node_pref nd') = Inr a' \<and> x \<in> a'"
    then obtain v nd' a' where v: "v = u \<or> (\<exists>c \<in> ?C. (c, v) \<in> (edges g)\<^sup>*)"
      "g v = Some nd'" "f (node_pref nd') = Inr a'" "x \<in> a'"
      by blast
    from v(1) show "x \<in> a \<or> (\<exists>c \<in> ?C. x \<in> closure_of g f c)"
    proof
      assume "v = u"
      with v assms show ?thesis by simp
    next
      assume "\<exists>c \<in> ?C. (c, v) \<in> (edges g)\<^sup>*"
      then obtain c where "c \<in> ?C" "(c, v) \<in> (edges g)\<^sup>*" by blast
      with v have "c \<in> ?C \<and> x \<in> closure_of g f c" unfolding closure_of_iff by blast
      then show ?thesis by blast
    qed
  next
    assume "x \<in> a \<or> (\<exists>c \<in> ?C. x \<in> closure_of g f c)"
    then show "\<exists>v nd' a'. (v = u \<or> (\<exists>c \<in> ?C. (c, v) \<in> (edges g)\<^sup>*))
         \<and> g v = Some nd' \<and> f (node_pref nd') = Inr a' \<and> x \<in> a'"
    proof
      assume "x \<in> a"
      with assms show ?thesis by blast
    next
      assume "\<exists>c \<in> ?C. x \<in> closure_of g f c"
      then obtain c where "c \<in> ?C" "x \<in> closure_of g f c" by blast
      then show ?thesis unfolding closure_of_iff by blast
    qed
  qed
  also have "\<dots> \<longleftrightarrow> x \<in> a \<union> \<Union> (closure_of g f ` ?C)" by blast
  finally show "x \<in> closure_of g f u \<longleftrightarrow> x \<in> a \<union> \<Union> (closure_of g f ` ?C)" .
qed

lemma gather_deps_arts:
  "gather_deps d g f u calls = Inr (arts, calls') \<Longrightarrow> arts = closure_of g f u"
proof (induction d arbitrary: u calls arts calls')
  case 0
  then show ?case by simp
next
  case (Suc d)
  from Suc.prems obtain nd a where
    nd: "g u = Some nd" and a: "f (node_pref nd) = Inr a" and
    loop: "gather_loop (gather_deps d g f) (requires_items nd) (a, calls @ [u]) = Inr (arts, calls')"
    by (auto split: option.splits sum.splits)
  have "arts = a \<union> \<Union> (closure_of g f ` snd ` set (requires_items nd))"
    using loop by (rule gather_loop_arts[rotated]) (rule Suc.IH)
  moreover have "closure_of g f u = a \<union> \<Union> (closure_of g f ` snd ` set (requires_items nd))"
    using nd a by (rule closure_of_unfold)
  ultimately show ?case by simp
qed

lemma gather_loop_set:
  assumes "\<And>c calls a calls'. c \<in> snd ` set items \<Longrightarrow> rec c calls = Inr (a, calls')
      \<Longrightarrow> \<exists>new. calls' = calls @ new \<and> set new = R c"
    and "gather_loop rec items (arts, calls) = Inr (arts', calls')"
  shows "\<exists>new. calls' = calls @ new \<and> set new = \<Union> (R ` snd ` set items)"
  using assms
proof (induction items arbitrary: arts calls)
  case Nil
  then show ?case by simp
next
  case (Cons it items)
  obtain slot c where it: "it = (slot, c)" by (cases it)
  from Cons.prems(2) it obtain deps calls1 where
    r: "rec c calls = Inr (deps, calls1)" and
    rest: "gather_loop rec items (arts \<union> deps, calls1) = Inr (arts', calls')"
    by (auto split: sum.splits)
  from Cons.prems(1)[of c calls deps calls1] it r obtain n1 where
    n1: "calls1 = calls @ n1" "set n1 = R c"
    by auto
  have "\<exists>new. calls' = calls1 @ new \<and> set new = \<Union> (R ` snd ` set items)"
    using Cons.prems(1) rest by (intro Cons.IH[of "arts \<union> deps" calls1]) auto
  then obtain n2 where n2: "calls' = calls1 @ n2" "set n2 = \<Union> (R ` snd ` set items)"
    by auto
  have "calls' = calls @ (n1 @ n2)" using n1 n2 by simp
  moreover have "set (n1 @ n2) = \<Union> (R ` snd ` set (it # items))"
    using n1 n2 it by simp
  ultimately show ?case by blast
qed

lemma gather_deps_reach:
  "gather_deps d g f u calls = Inr (arts, calls')
   \<Longrightarrow> \<exists>new. calls' = calls @ new \<and> set new = {v. (u, v) \<in> (edges g)\<^sup>*}"
proof (induction d arbitrary: u calls arts calls')
  case 0
  then show ?case by simp
next
  case (Suc d)
  from Suc.prems obtain nd a where
    nd: "g u = Some nd" and a: "f (node_pref nd) = Inr a" and
    loop: "gather_loop (gather_deps d g f) (requires_items nd) (a, calls @ [u]) = Inr (arts, calls')"
    by (auto split: option.splits sum.splits)
  have "\<exists>new. calls' = (calls @ [u]) @ new
      \<and> set new = \<Union> ((\<lambda>c. {v. (c, v) \<in> (edges g)\<^sup>*}) ` snd ` set (requires_items nd))"
    using loop by (rule gather_loop_set[rotated]) (rule Suc.IH)
  then obtain new where new: "calls' = (calls @ [u]) @ new"
    "set new = \<Union> ((\<lambda>c. {v. (c, v) \<in> (edges g)\<^sup>*}) ` snd ` set (requires_items nd))"
    by auto
  have r: "\<And>v. (u, v) \<in> (edges g)\<^sup>* \<longleftrightarrow>
      v = u \<or> (\<exists>c \<in> snd ` set (requires_items nd). (c, v) \<in> (edges g)\<^sup>*)"
    using nd by (rule reach_unfold)
  have "calls' = calls @ (u # new)" using new(1) by simp
  moreover have "set (u # new) = {v. (u, v) \<in> (edges g)\<^sup>*}"
    unfolding r new(2) set_simps by blast
  ultimately show ?case by blast
qed

subsection \<open>Termination on acyclic graphs\<close>

lemma gather_loop_total:
  assumes "\<And>c calls. c \<in> snd ` set items \<Longrightarrow> \<exists>r. rec c calls = Inr r"
  shows "\<exists>r. gather_loop rec items acc = Inr r"
  using assms
proof (induction items arbitrary: acc)
  case Nil
  then show ?case by simp
next
  case (Cons it items)
  obtain slot c where it: "it = (slot, c)" by (cases it)
  obtain arts calls where acc: "acc = (arts, calls)" by (cases acc)
  from Cons.prems[of c calls] it obtain deps calls1 where r: "rec c calls = Inr (deps, calls1)"
    by auto
  have "\<exists>r. gather_loop rec items (arts \<union> deps, calls1) = Inr r"
    using Cons.prems by (intro Cons.IH) auto
  with r it acc show ?case by simp
qed

lemma walkable_child:
  assumes "walkable g f" "g u = Some nd" "c \<in> snd ` set (requires_items nd)"
  shows "c \<in> dom g" "(u, c) \<in> edges g"
proof -
  from assms(2,3) show e: "(u, c) \<in> edges g" by (simp add: edges_def)
  with assms(1) show "c \<in> dom g" by (auto simp: walkable_def)
qed

lemma walkable_resolves:
  assumes "walkable g f" "g u = Some nd"
  shows "\<exists>a. f (node_pref nd) = Inr a"
proof -
  from assms(2) have "nd \<in> ran g" by (rule ranI)
  with assms(1) show ?thesis by (simp add: walkable_def)
qed

lemma gather_deps_total:
  assumes wf: "wf ((edges g)\<inverse>)" and w: "walkable g f"
  shows "u \<in> dom g \<Longrightarrow> \<exists>d. \<forall>calls. \<exists>r. gather_deps d g f u calls = Inr r"
  using wf
proof (induction u rule: wf_induct_rule)
  case (less u)
  from less.prems obtain nd where nd: "g u = Some nd" by auto
  from walkable_resolves[OF w nd] obtain a where a: "f (node_pref nd) = Inr a" ..
  let ?C = "snd ` set (requires_items nd)"
  have "\<forall>c \<in> ?C. \<exists>d. \<forall>calls. \<exists>r. gather_deps d g f c calls = Inr r"
  proof
    fix c assume c: "c \<in> ?C"
    from walkable_child[OF w nd c] have "c \<in> dom g" "(c, u) \<in> (edges g)\<inverse>" by auto
    then show "\<exists>d. \<forall>calls. \<exists>r. gather_deps d g f c calls = Inr r"
      using less.IH by blast
  qed
  then obtain dc where dc: "\<forall>c \<in> ?C. \<forall>calls. \<exists>r. gather_deps (dc c) g f c calls = Inr r"
    by metis
  define D where "D = Max (insert 0 (dc ` ?C))"
  have le: "dc c \<le> D" if "c \<in> ?C" for c
    unfolding D_def using that by (intro Max_ge) auto
  have "\<exists>r. gather_deps D g f c calls = Inr r" if "c \<in> ?C" for c calls
  proof -
    from dc that obtain r where "gather_deps (dc c) g f c calls = Inr r" by blast
    with le[OF that] have "gather_deps D g f c calls = Inr r" by (rule gather_deps_mono)
    then show ?thesis ..
  qed
  then have "\<exists>r. gather_loop (gather_deps D g f) (requires_items nd) (a, calls @ [u]) = Inr r"
    for calls
    by (intro gather_loop_total) blast
  with nd a have "\<forall>calls. \<exists>r. gather_deps (Suc D) g f u calls = Inr r" by simp
  then show ?case ..
qed

lemma edges_finite:
  assumes "finite (dom g)" "walkable g f"
  shows "finite (edges g)"
proof -
  have "edges g \<subseteq> dom g \<times> dom g"
  proof
    fix p assume p: "p \<in> edges g"
    obtain u c where uc: "p = (u, c)" by (cases p)
    with p have "u \<in> dom g" by (auto simp: edges_def)
    moreover from assms(2) p uc have "c \<in> dom g" by (auto simp: walkable_def)
    ultimately show "p \<in> dom g \<times> dom g" using uc by simp
  qed
  with assms(1) show ?thesis by (meson finite_SigmaI finite_subset)
qed

subsection \<open>Cycles\<close>

lemma gather_loop_child_ok:
  assumes "gather_loop rec items acc = Inr r" "c \<in> snd ` set items"
  shows "\<exists>calls r'. rec c calls = Inr r'"
  using assms
proof (induction items arbitrary: acc)
  case Nil
  then show ?case by simp
next
  case (Cons it items)
  obtain slot c' where it: "it = (slot, c')" by (cases it)
  obtain arts calls where acc: "acc = (arts, calls)" by (cases acc)
  from Cons.prems(1) it acc obtain deps calls1 where
    r: "rec c' calls = Inr (deps, calls1)" and
    rest: "gather_loop rec items (arts \<union> deps, calls1) = Inr r"
    by (auto split: sum.splits)
  show ?case
  proof (cases "c = c'")
    case True
    with r show ?thesis by blast
  next
    case False
    with Cons.prems(2) it have "c \<in> snd ` set items" by auto
    with rest show ?thesis by (rule Cons.IH)
  qed
qed

lemma gather_deps_child_ok:
  assumes "gather_deps (Suc d) g f u calls = Inr r" "(u, c) \<in> edges g"
  shows "\<exists>calls' r'. gather_deps d g f c calls' = Inr r'"
proof -
  from assms(1) obtain nd a where
    nd: "g u = Some nd" and
    loop: "gather_loop (gather_deps d g f) (requires_items nd) (a, calls @ [u]) = Inr r"
    by (auto split: option.splits sum.splits)
  from assms(2) nd have "c \<in> snd ` set (requires_items nd)" by (simp add: edges_def)
  with loop show ?thesis by (rule gather_loop_child_ok)
qed

lemma no_result_on_cycle:
  assumes "(v, v) \<in> (edges g)\<^sup>+"
  shows "(u, v) \<in> (edges g)\<^sup>* \<Longrightarrow> gather_deps d g f u calls \<noteq> Inr r"
proof (induction d arbitrary: u calls r)
  case 0
  then show ?case by simp
next
  case (Suc d)
  from Suc.prems assms have "(u, v) \<in> (edges g)\<^sup>+" by (rule rtrancl_trancl_trancl)
  then obtain c where c: "(u, c) \<in> edges g" "(c, v) \<in> (edges g)\<^sup>*"
    by (meson tranclD)
  show ?case
  proof
    assume "gather_deps (Suc d) g f u calls = Inr r"
    then obtain calls' r' where "gather_deps d g f c calls' = Inr r'"
      using c(1) by (blast dest: gather_deps_child_ok)
    with Suc.IH[OF c(2)] show False by blast
  qed
qed

lemma gather_loop_error:
  assumes "\<And>c calls e. c \<in> snd ` set items \<Longrightarrow> rec c calls = Inl e \<Longrightarrow> e = RecursionError"
    and "gather_loop rec items acc = Inl e"
  shows "e = RecursionError"
  using assms
proof (induction items arbitrary: acc)
  case Nil
  then show ?case by simp
next
  case (Cons it items)
  obtain slot c where it: "it = (slot, c)" by (cases it)
  obtain arts calls where acc: "acc = (arts, calls)" by (cases acc)
  show ?case
  proof (cases "rec c calls")
    case (Inl e')
    with Cons.prems(2) it acc have "e' = e" by simp
    with Cons.prems(1)[of c calls e'] Inl it show ?thesis by simp
  next
    case (Inr p)
    obtain deps calls1 where p: "p = (deps, calls1)" by (cases p)
    with Inr Cons.prems(2) it acc have "gather_loop rec items (arts \<union> deps, calls1) = Inl e"
      by simp
    then show ?thesis using Cons.prems(1) by (intro Cons.IH[of "(arts \<union> deps, calls1)"]) auto
  qed
qed

lemma only_recursion_error:
  assumes w: "walkable g f"
  shows "u \<in> dom g \<Longrightarrow> gather_deps d g f u calls = Inl e \<Longrightarrow> e = RecursionError"
proof (induction d arbitrary: u calls e)
  case 0
  then show ?case by simp
next
  case (Suc d)
  from Suc.prems(1) obtain nd where nd: "g u = Some nd" by auto
  from walkable_resolves[OF w nd] obtain a where a: "f (node_pref nd) = Inr a" ..
  from Suc.prems(2) nd a have
    loop: "gather_loop (gather_deps d g f) (requires_items nd) (a, calls @ [u]) = Inl e"
    by simp
  show ?case
  proof (rule gather_loop_error[OF _ loop])
    fix c calls' e'
    assume c: "c \<in> snd ` set (requires_items nd)" and e: "gather_deps d g f c calls' = Inl e'"
    from walkable_child(1)[OF w nd c] e show "e' = RecursionError" by (rule Suc.IH)
  qed
qed

subsection \<open>The example graphs\<close>

lemmas graph_defs = diamond_def cycle_xy_def node_of_def requires_items_def resolve_one_def

lemma edges_diamond:
  "edges diamond = {(''root'', ''A''), (''root'', ''B''), (''A'', ''C''), (''B'', ''C'')}"
  by (auto simp: edges_def graph_defs image_iff split: if_splits)

lemma edges_cycle_xy: "edges cycle_xy = {(''X'', ''Y''), (''Y'', ''X'')}"
  by (auto simp: edges_def graph_defs split: if_splits)

lemma dom_diamond: "dom diamond = {''root'', ''A'', ''B'', ''C''}"
  by (auto simp: graph_defs split: if_splits)

lemma dom_cycle_xy: "dom cycle_xy = {''X'', ''Y''}"
  by (auto simp: graph_defs split: if_splits)

lemma walkable_diamond: "walkable diamond resolve_one"
  by (simp add: walkable_def edges_diamond dom_diamond) (simp add: resolve_one_def)

lemma walkable_cycle_xy: "walkable cycle_xy resolve_one"
  by (simp add: walkable_def edges_cycle_xy dom_cycle_xy) (simp add: resolve_one_def)

lemma acyclic_diamond: "acyclic (edges diamond)"
proof (rule acyclicI_order)
  fix a b assume "(a, b) \<in> edges diamond"
  then show "(if b = ''root'' then 2 else if b = ''C'' then 0 else (1::nat))
      < (if a = ''root'' then 2 else if a = ''C'' then 0 else (1::nat))"
    by (auto simp: edges_diamond)
qed

lemma cycle_xy_loop: "(''X'', ''X'') \<in> (edges cycle_xy)\<^sup>+"
proof -
  have "(''X'', ''Y'') \<in> edges cycle_xy" "(''Y'', ''X'') \<in> edges cycle_xy"
    by (simp_all add: edges_cycle_xy)
  then show ?thesis by (rule trancl_into_trancl[OF r_into_trancl])
qed

lemma cycle_gives_error:
  assumes "(u, v) \<in> (edges g)\<^sup>*" "(v, v) \<in> (edges g)\<^sup>+"
  shows "\<exists>e. gather_deps d g f u calls = Inl e
    \<and> (walkable g f \<and> u \<in> dom g \<longrightarrow> e = RecursionError)"
proof (cases "gather_deps d g f u calls")
  case (Inl e)
  then show ?thesis by (auto dest: only_recursion_error)
next
  case (Inr r)
  with no_result_on_cycle[OF assms(2,1), of d f calls r] show ?thesis by simp
qed

section \<open>Properties of artifact sets and of the environment snapshot\<close>

lemma artifact_eq_iff: "artifact_eq a b \<longleftrightarrow> a = b"
  by (cases a, cases b) (auto simp: artifact_eq_def)

lemma set_set_add: "set (set_add h x s) = insert x (set s)"
  by (induction s) (auto simp: artifact_eq_iff)

lemma distinct_set_add: "distinct s \<Longrightarrow> distinct (set_add h x s)"
  by (induction s) (auto simp: set_set_add artifact_eq_iff artifact_hash_def)

lemma set_fold_set_add: "set (fold (set_add h) xs s) = set s \<union> set xs"
  by (induction xs arbitrary: s) (auto simp: set_set_add)

lemma distinct_fold_set_add: "distinct s \<Longrightarrow> distinct (fold (set_add h) xs s)"
  by (induction xs arbitrary: s) (auto simp: distinct_set_add)

lemma set_set_update: "set (set_update h s xs) = set s \<union> set xs"
  by (simp add: set_update_def set_fold_set_add)

lemma set_add_single: "set_add h b [a] = [a] \<longleftrightarrow> artifact_eq a b"
  by (auto simp: artifact_eq_def artifact_hash_def)

lemma map_of_environment:
  "map_of (environment environ) (''buildInfo.env.'' @ k)
     = (if k \<in> set excluded then None else map_of environ k)"
  by (induction environ) (auto simp: environment_def)

lemma keys_environment:
  "fst ` set (environment environ)
     = ((@) ''buildInfo.env.'') ` (fst ` set environ - set excluded)"
  by (force simp: environment_def)

section \<open>Properties of the merge on the store\<close>

subsection \<open>Reading the store\<close>

lemma hget_Some_lt: "hget h a = Some x \<Longrightarrow> a < length h"
  by (simp add: hget_def split: if_splits)

lemma hget_update: "hget (h[a := x]) b = (if b = a \<and> a < length h then Some x else hget h b)"
  by (simp add: hget_def)

lemma hget_append: "hget (h @ [x]) b = (if b = length h then Some x else hget h b)"
  by (simp add: hget_def nth_append)

lemma module_at_Some: "module_at h a = Some m \<longleftrightarrow> hget h a = Some (Module m)"
  by (simp add: module_at_def split: option.splits obj.splits)

lemma module_at_typed: "module_at h a \<noteq> None \<longleftrightarrow> (\<exists>m. hget h a = Some (Module m))"
  by (simp add: module_at_def split: option.splits obj.splits)

lemma list_at_Some: "list_at h a = Some refs \<longleftrightarrow> hget h a = Some (ModuleList refs)"
  by (simp add: list_at_def split: option.splits obj.splits)

subsection \<open>The search\<close>

lemma find_ref_None:
  "find_ref h refs mid = Inr None \<Longrightarrow> r \<in> set refs \<Longrightarrow> hget h r = Some (Module rm)
   \<Longrightarrow> mod_id rm \<noteq> mid"
  by (induction refs) (auto split: option.splits obj.splits if_splits)

lemma find_ref_Some:
  "find_ref h refs mid = Inr (Some it) \<Longrightarrow> it \<in> set refs \<and> (\<exists>m. hget h it = Some (Module m))"
  by (induction refs) (auto split: option.splits obj.splits if_splits)

lemma find_ref_typed:
  "list_all (\<lambda>a. module_at h a \<noteq> None) ls
   \<Longrightarrow> find_ref h ls mid = Inr (map_option (nth ls) (find_index (modules_at h ls) mid))"
proof (induction ls)
  case Nil
  then show ?case by (simp add: modules_at_def)
next
  case (Cons it its)
  from Cons.prems obtain m where mm: "module_at h it = Some m"
    by auto
  then have m: "hget h it = Some (Module m)" by (simp add: module_at_Some)
  from Cons have IH: "find_ref h its mid
      = Inr (map_option (nth its) (find_index (modules_at h its) mid))"
    by simp
  show ?case
    using m mm IH by (simp add: modules_at_def option.map_comp comp_def)
qed

subsection \<open>The list iterated is not changed\<close>

lemma assign_merged_keeps_list:
  assumes "assign_merged h1 it r = Inr h'" "list_at h1 R = Some rs"
  shows "list_at h' R = Some rs"
proof -
  from assms(1) obtain lm where lm: "hget h1 it = Some (Module lm)"
    by (auto simp: assign_merged_def split: option.splits obj.splits)
  with assms(2) have ne: "it \<noteq> R" by (auto simp: list_at_Some)
  from assms(1) lm obtain m1 m2 where "h' = h1[it := Module m1, it := Module m2]"
    by (auto simp: assign_merged_def Let_def hget_update split: option.splits obj.splits sum.splits if_splits)
  with ne assms(2) show ?thesis by (simp add: list_at_def hget_update)
qed

lemma merge_step_h_keeps_list:
  assumes "list_at h R = Some rs" "r \<in> set rs" "merge_step_h h lhs r = Inr h'"
  shows "list_at h' R = Some rs"
proof -
  from assms(3) obtain rm it h1 where
    rm: "hget h r = Some (Module rm)" and
    fm: "find_module_h h lhs (mod_id rm) = Inr (it, h1)" and
    am: "assign_merged h1 it r = Inr h'"
    by (auto simp: merge_step_h_def split: option.splits obj.splits sum.splits)
  from fm obtain d ls where d: "hget h lhs = Some (Document d)"
    and ls: "hget h (do_modules d) = Some (ModuleList ls)"
    by (auto simp: find_module_h_def split: option.splits obj.splits)
  have "list_at h1 R = Some rs"
  proof (cases "find_ref h ls (mod_id rm)")
    case (Inl e)
    with fm d ls show ?thesis by (simp add: find_module_h_def)
  next
    case (Inr res)
    show ?thesis
    proof (cases res)
      case (Some x)
      with Inr fm d ls have "h1 = h" by (simp add: find_module_h_def)
      with assms(1) show ?thesis by simp
    next
      case None
      with Inr fm d ls have h1: "h1 = (h @ [Module (new_module (mod_id rm))])
          [do_modules d := ModuleList (ls @ [length h])]"
        by (auto simp: find_module_h_def)
      have "do_modules d \<noteq> R"
      proof
        assume "do_modules d = R"
        with ls assms(1) have "ls = rs" by (simp add: list_at_Some)
        with Inr None assms(2) rm show False by (auto dest: find_ref_None)
      qed
      moreover from assms(1) have "R < length h" by (auto simp: list_at_Some dest: hget_Some_lt)
      ultimately show ?thesis
        using assms(1) by (simp add: h1 list_at_def hget_update hget_append)
    qed
  qed
  with am show ?thesis by (rule assign_merged_keeps_list)
qed


subsection \<open>A round of the loop on separate documents\<close>

lemma merge_module_pair:
  "merge_module a rm =
     (case find_module a (mod_id rm) of
        (i, a1) \<Rightarrow>
          (case merge_pair (bi_modules a1 ! i) rm of
             Inl e \<Rightarrow> Inl e
           | Inr m' \<Rightarrow> Inr (a1\<lparr>bi_modules := (bi_modules a1)[i := m']\<rparr>)))"
  by (simp add: merge_module_def merge_pair_def Let_def split: prod.splits sum.splits)

lemma assign_merged_pair:
  assumes "hget h1 it = Some (Module lm)" "hget h1 r = Some (Module rm)" "it \<noteq> r"
  shows "assign_merged h1 it r =
    (case merge_pair lm rm of Inl e \<Rightarrow> Inl e | Inr m' \<Rightarrow> Inr (h1[it := Module m']))"
proof -
  from assms(1) have lt: "it < length h1" by (rule hget_Some_lt)
  show ?thesis
    using assms lt
    by (simp add: assign_merged_def merge_pair_def Let_def hget_update split: sum.splits)
qed

lemma heap_inv_types:
  assumes "heap_inv h lhs d ls P"
  shows "lhs < length h" "do_modules d < length h" "lhs \<noteq> do_modules d"
    "\<And>x. x \<in> set ls \<Longrightarrow> x < length h \<and> x \<noteq> lhs \<and> x \<noteq> do_modules d
        \<and> (\<exists>m. hget h x = Some (Module m))"
proof -
  from assms have dl: "hget h lhs = Some (Document d)"
    and ll: "hget h (do_modules d) = Some (ModuleList ls)"
    and ty: "\<forall>x \<in> set ls. \<exists>m. hget h x = Some (Module m)"
    by (auto simp: heap_inv_def list_all_iff module_at_Some)
  from dl show "lhs < length h" by (rule hget_Some_lt)
  from ll show "do_modules d < length h" by (rule hget_Some_lt)
  from dl ll show "lhs \<noteq> do_modules d" by auto
  fix x assume "x \<in> set ls"
  with ty obtain m where m: "hget h x = Some (Module m)" by blast
  with dl ll show "x < length h \<and> x \<noteq> lhs \<and> x \<noteq> do_modules d
      \<and> (\<exists>m. hget h x = Some (Module m))"
    by (auto dest: hget_Some_lt)
qed

lemma find_index_length: "find_index ms mid = Some i \<Longrightarrow> i < length ms"
  by (simp add: find_index_Some)

lemma merge_step_h_absent:
  assumes inv: "heap_inv h lhs d ls P" and r: "r \<in> P" "hget h r = Some (Module rm)"
    and nf: "find_index (modules_at h ls) (mod_id rm) = None"
  shows "case merge_module (doc_value d (modules_at h ls)) rm of
           Inl e \<Rightarrow> merge_step_h h lhs r = Inl e
         | Inr a' \<Rightarrow> \<exists>h' ls'. merge_step_h h lhs r = Inr h' \<and> heap_inv h' lhs d ls' P
              \<and> a' = doc_value d (modules_at h' ls') \<and> (\<forall>x \<in> P. hget h' x = hget h x)"
proof -
  let ?L = "do_modules d" and ?ms = "modules_at h ls" and ?nm = "new_module (mod_id rm)"
  let ?h1 = "(h @ [Module ?nm])[?L := ModuleList (ls @ [length h])]"
  note ty = heap_inv_types[OF inv]
  from inv have dl: "hget h lhs = Some (Document d)"
    and ll: "hget h ?L = Some (ModuleList ls)"
    and dist: "distinct ls"
    and typed: "list_all (\<lambda>a. module_at h a \<noteq> None) ls"
    and prot: "\<forall>a \<in> P. a < length h \<and> a \<noteq> ?L \<and> a \<notin> set ls"
    by (simp_all add: heap_inv_def)
  from prot r(1) have rP: "r < length h" "r \<noteq> ?L" by auto
  have fr: "find_ref h ls (mod_id rm) = Inr None"
    using find_ref_typed[OF typed, of "mod_id rm"] nf by simp
  have fm: "find_module_h h lhs (mod_id rm) = Inr (length h, ?h1)"
    using dl ll fr by (simp add: find_module_h_def)
  have g1: "hget ?h1 (length h) = Some (Module ?nm)"
    using ty(2) by (simp add: hget_update hget_append)
  have g2: "hget ?h1 r = Some (Module rm)"
    using rP r(2) by (simp add: hget_update hget_append)
  have ne: "length h \<noteq> r" using rP by simp
  have step: "merge_step_h h lhs r =
      (case merge_pair ?nm rm of Inl e \<Rightarrow> Inl e
       | Inr m' \<Rightarrow> Inr (?h1[length h := Module m']))"
    using r(2) fm assign_merged_pair[OF g1 g2 ne] by (simp add: merge_step_h_def)
  have pure: "merge_module (doc_value d ?ms) rm =
      (case merge_pair ?nm rm of Inl e \<Rightarrow> Inl e
       | Inr m' \<Rightarrow> Inr (doc_value d (?ms @ [m'])))"
    using nf by (simp add: merge_module_pair find_module_def doc_value_def split: sum.splits)
  show ?thesis
  proof (cases "merge_pair ?nm rm")
    case (Inl e)
    with step pure show ?thesis by simp
  next
    case (Inr m')
    let ?h' = "?h1[length h := Module m']"
    let ?ls' = "ls @ [length h]"
    have old: "hget ?h' x = hget h x" if "x < length h" "x \<noteq> ?L" for x
      using that by (simp add: hget_update hget_append)
    have new: "hget ?h' (length h) = Some (Module m')"
      by (simp add: hget_update)
    have lst: "hget ?h' ?L = Some (ModuleList ?ls')"
      using ty(2) by (simp add: hget_update hget_append)
    have mods: "module_at ?h' x = module_at h x" if "x \<in> set ls" for x
      using ty(4)[OF that] by (simp add: module_at_def old)
    have "heap_inv ?h' lhs d ?ls' P"
      unfolding heap_inv_def
    proof (intro conjI)
      show "hget ?h' lhs = Some (Document d)" using ty(1,3) dl by (simp add: old)
      show "hget ?h' ?L = Some (ModuleList ?ls')" by (rule lst)
      show "distinct ?ls'" using dist ty(4) by auto
      show "list_all (\<lambda>a. module_at ?h' a \<noteq> None) ?ls'"
        using typed mods new by (auto simp: list_all_iff module_at_def)
      show "\<forall>a \<in> P. a < length ?h' \<and> a \<noteq> ?L \<and> a \<notin> set ?ls'"
        using prot by auto
    qed
    moreover have "modules_at ?h' ?ls' = ?ms @ [m']"
      using mods new by (simp add: modules_at_def module_at_def)
    moreover have "\<forall>x \<in> P. hget ?h' x = hget h x"
      using prot old by blast
    ultimately show ?thesis
      using step pure Inr by auto
  qed
qed

lemma merge_step_h_present:
  assumes inv: "heap_inv h lhs d ls P" and r: "r \<in> P" "hget h r = Some (Module rm)"
    and fi: "find_index (modules_at h ls) (mod_id rm) = Some i"
  shows "case merge_module (doc_value d (modules_at h ls)) rm of
           Inl e \<Rightarrow> merge_step_h h lhs r = Inl e
         | Inr a' \<Rightarrow> \<exists>h' ls'. merge_step_h h lhs r = Inr h' \<and> heap_inv h' lhs d ls' P
              \<and> a' = doc_value d (modules_at h' ls') \<and> (\<forall>x \<in> P. hget h' x = hget h x)"
proof -
  let ?L = "do_modules d" and ?ms = "modules_at h ls"
  let ?it = "ls ! i" and ?lm = "modules_at h ls ! i"
  note ty = heap_inv_types[OF inv]
  from inv have dl: "hget h lhs = Some (Document d)"
    and ll: "hget h ?L = Some (ModuleList ls)"
    and dist: "distinct ls"
    and typed: "list_all (\<lambda>a. module_at h a \<noteq> None) ls"
    and prot: "\<forall>a \<in> P. a < length h \<and> a \<noteq> ?L \<and> a \<notin> set ls"
    by (simp_all add: heap_inv_def)
  from fi have i: "i < length ls" by (auto dest: find_index_length simp: modules_at_def)
  then have itin: "?it \<in> set ls" by simp
  note tit = ty(4)[OF itin]
  from tit obtain m where m: "hget h ?it = Some (Module m)" by blast
  then have lm: "hget h ?it = Some (Module ?lm)"
    using i by (simp add: modules_at_def module_at_def)
  have ne: "?it \<noteq> r" using prot r(1) itin by auto
  have fr: "find_ref h ls (mod_id rm) = Inr (Some ?it)"
    using find_ref_typed[OF typed, of "mod_id rm"] fi by simp
  have fm: "find_module_h h lhs (mod_id rm) = Inr (?it, h)"
    using dl ll fr by (simp add: find_module_h_def)
  have step: "merge_step_h h lhs r =
      (case merge_pair ?lm rm of Inl e \<Rightarrow> Inl e
       | Inr m' \<Rightarrow> Inr (h[?it := Module m']))"
    using r(2) fm assign_merged_pair[OF lm r(2) ne] by (simp add: merge_step_h_def)
  have pure: "merge_module (doc_value d ?ms) rm =
      (case merge_pair ?lm rm of Inl e \<Rightarrow> Inl e
       | Inr m' \<Rightarrow> Inr (doc_value d (?ms[i := m'])))"
    using fi by (simp add: merge_module_pair find_module_def doc_value_def split: sum.splits)
  show ?thesis
  proof (cases "merge_pair ?lm rm")
    case (Inl e)
    with step pure show ?thesis by simp
  next
    case (Inr m')
    let ?h' = "h[?it := Module m']"
    have upd: "hget ?h' x = (if x = ?it then Some (Module m') else hget h x)" for x
      using tit by (simp add: hget_update)
    have "heap_inv ?h' lhs d ls P"
      unfolding heap_inv_def
    proof (intro conjI)
      show "hget ?h' lhs = Some (Document d)" using tit dl by (simp add: upd)
      show "hget ?h' ?L = Some (ModuleList ls)" using tit ll by (simp add: upd)
      show "distinct ls" by (rule dist)
      show "list_all (\<lambda>a. module_at ?h' a \<noteq> None) ls"
        using typed by (auto simp: list_all_iff module_at_def upd)
      show "\<forall>a \<in> P. a < length ?h' \<and> a \<noteq> ?L \<and> a \<notin> set ls"
        using prot by simp
    qed
    moreover have "modules_at ?h' ls = ?ms[i := m']"
    proof (rule nth_equalityI)
      show "length (modules_at ?h' ls) = length (?ms[i := m'])"
        by (simp add: modules_at_def)
    next
      fix j assume "j < length (modules_at ?h' ls)"
      then have j: "j < length ls" by (simp add: modules_at_def)
      have "ls ! j = ls ! i \<longleftrightarrow> j = i"
        using dist i j by (simp add: nth_eq_iff_index_eq)
      then show "modules_at ?h' ls ! j = ?ms[i := m'] ! j"
        using i j by (auto simp: modules_at_def module_at_def upd nth_list_update)
    qed
    moreover have "\<forall>x \<in> P. hget ?h' x = hget h x"
      using prot itin by (auto simp: upd)
    ultimately show ?thesis
      using step pure Inr by auto
  qed
qed

lemma merge_step_h_sim:
  assumes "heap_inv h lhs d ls P" "r \<in> P" "hget h r = Some (Module rm)"
  shows "case merge_module (doc_value d (modules_at h ls)) rm of
           Inl e \<Rightarrow> merge_step_h h lhs r = Inl e
         | Inr a' \<Rightarrow> \<exists>h' ls'. merge_step_h h lhs r = Inr h' \<and> heap_inv h' lhs d ls' P
              \<and> a' = doc_value d (modules_at h' ls') \<and> (\<forall>x \<in> P. hget h' x = hget h x)"
proof (cases "find_index (modules_at h ls) (mod_id rm)")
  case None
  with assms show ?thesis by (rule merge_step_h_absent)
next
  case (Some i)
  with assms show ?thesis by (rule merge_step_h_present)
qed

subsection \<open>The loop and the whole merge on separate documents\<close>

lemma modules_at_cong:
  "(\<And>x. x \<in> set rs \<Longrightarrow> hget h' x = hget h x) \<Longrightarrow> modules_at h' rs = modules_at h rs"
  by (simp add: modules_at_def module_at_def)

lemma merge_loop_h_sim:
  assumes "heap_inv h lhs d ls P" "set rs \<subseteq> P" "list_all (\<lambda>a. module_at h a \<noteq> None) rs"
  shows "case merge_modules (doc_value d (modules_at h ls)) (modules_at h rs) of
           Inl e \<Rightarrow> merge_loop_h h lhs rs = Inl e
         | Inr a' \<Rightarrow> \<exists>h' ls'. merge_loop_h h lhs rs = Inr h' \<and> heap_inv h' lhs d ls' P
              \<and> a' = doc_value d (modules_at h' ls') \<and> (\<forall>x \<in> P. hget h' x = hget h x)"
  using assms
proof (induction rs arbitrary: h ls)
  case Nil
  have "modules_at h [] = []" by (simp add: modules_at_def)
  with Nil.prems(1) show ?case by auto
next
  case (Cons r rs)
  from Cons.prems(3) obtain rm where "module_at h r = Some rm"
    by auto
  then have rm: "hget h r = Some (Module rm)" by (simp add: module_at_Some)
  then have rmv: "the (module_at h r) = rm" by (simp add: module_at_def)
  from Cons.prems(2) have rP: "r \<in> P" and rsP: "set rs \<subseteq> P" by auto
  have mods: "modules_at h (r # rs) = rm # modules_at h rs"
    using rmv by (simp add: modules_at_def)
  note step = merge_step_h_sim[OF Cons.prems(1) rP rm]
  show ?case
  proof (cases "merge_module (doc_value d (modules_at h ls)) rm")
    case (Inl e)
    with step show ?thesis by (simp add: mods)
  next
    case (Inr a1)
    with step obtain h1 ls1 where
      s1: "merge_step_h h lhs r = Inr h1" and inv1: "heap_inv h1 lhs d ls1 P" and
      a1: "a1 = doc_value d (modules_at h1 ls1)" and fr1: "\<forall>x \<in> P. hget h1 x = hget h x"
      by auto
    have same: "modules_at h1 rs = modules_at h rs"
      using fr1 rsP by (intro modules_at_cong) auto
    have typed1: "list_all (\<lambda>a. module_at h1 a \<noteq> None) rs"
      using Cons.prems(3) fr1 rsP by (auto simp: list_all_iff module_at_def)
    note IH = Cons.IH[OF inv1 rsP typed1]
    show ?thesis
    proof (cases "merge_modules a1 (modules_at h rs)")
      case (Inl e)
      with IH a1 same Inr s1 show ?thesis by (simp add: mods)
    next
      case res: (Inr a')
      with IH a1 same obtain h' ls' where
        l: "merge_loop_h h1 lhs rs = Inr h'" and inv': "heap_inv h' lhs d ls' P" and
        a': "a' = doc_value d (modules_at h' ls')" and fr': "\<forall>x \<in> P. hget h' x = hget h1 x"
        by auto
      from fr1 fr' have "\<forall>x \<in> P. hget h' x = hget h x" by simp
      with l inv' a' s1 Inr res show ?thesis by (auto simp: mods)
    qed
  qed
qed

lemma doc_at_heap_inv:
  assumes "heap_inv h lhs d ls P"
  shows "doc_at h lhs = Some (Some (doc_value d (modules_at h ls)))"
  using assms by (simp add: heap_inv_def doc_at_def list_at_def doc_value_def)

lemma document_at_Some: "document_at h a = Some d \<longleftrightarrow> hget h a = Some (Document d)"
  by (simp add: document_at_def split: option.splits obj.splits)

lemma separate_heap_inv:
  assumes "separate h lhs rhs"
  obtains l r ls rs where
    "hget h rhs = Some (Document r)" "hget h (do_modules r) = Some (ModuleList rs)"
    "list_all (\<lambda>a. module_at h a \<noteq> None) rs"
    "heap_inv h lhs l ls ({rhs, do_modules r} \<union> set rs)"
proof -
  from assms obtain l r ls rs where
    l: "hget h lhs = Some (Document l)" and r: "hget h rhs = Some (Document r)" and
    ls: "hget h (do_modules l) = Some (ModuleList ls)" and
    rs: "hget h (do_modules r) = Some (ModuleList rs)" and
    ne: "do_modules l \<noteq> do_modules r" and disj: "set ls \<inter> set rs = {}" and
    dist: "distinct ls" and
    tl: "list_all (\<lambda>a. module_at h a \<noteq> None) ls" and
    tr: "list_all (\<lambda>a. module_at h a \<noteq> None) rs"
    by (auto simp: separate_def list_at_Some document_at_Some split: option.splits)
  have tyl: "\<And>x. x \<in> set ls \<Longrightarrow> \<exists>m. hget h x = Some (Module m)"
    using tl by (auto simp: list_all_iff module_at_Some)
  have tyr: "\<And>x. x \<in> set rs \<Longrightarrow> \<exists>m. hget h x = Some (Module m)"
    using tr by (auto simp: list_all_iff module_at_Some)
  have "heap_inv h lhs l ls ({rhs, do_modules r} \<union> set rs)"
    unfolding heap_inv_def
  proof (intro conjI ballI)
    fix a assume a: "a \<in> {rhs, do_modules r} \<union> set rs"
    then consider "a = rhs" | "a = do_modules r" | "a \<in> set rs" by auto
    then have "\<exists>x. hget h a = Some x \<and> (\<forall>refs. x \<noteq> ModuleList refs \<or> a = do_modules r)
        \<and> (\<forall>m. x \<noteq> Module m \<or> a \<in> set rs)"
    proof cases
      case 1
      with r show ?thesis by simp
    next
      case 2
      with rs show ?thesis by simp
    next
      case 3
      with tyr[OF 3] show ?thesis by auto
    qed
    then obtain x where x: "hget h a = Some x"
      "\<forall>refs. x \<noteq> ModuleList refs \<or> a = do_modules r" "\<forall>m. x \<noteq> Module m \<or> a \<in> set rs"
      by blast
    from x(1) show "a < length h" by (rule hget_Some_lt)
    from x ls ne show "a \<noteq> do_modules l" by auto
    show "a \<notin> set ls"
    proof
      assume al: "a \<in> set ls"
      from tyl[OF al] obtain m where "hget h a = Some (Module m)" ..
      with x have "a \<in> set rs" by auto
      with al disj show False by auto
    qed
  qed (use l ls dist tl in simp_all)
  with r rs tr show ?thesis by (rule that)
qed


lemma doc_at_typed:
  assumes "hget h a = Some (Document d)" "hget h (do_modules d) = Some (ModuleList refs)"
    "list_all (\<lambda>x. module_at h x \<noteq> None) refs"
  shows "doc_at h a = Some (Some (doc_value d (modules_at h refs)))"
  using assms by (simp add: doc_at_def list_at_def doc_value_def)

lemma objects_of_typed:
  assumes "hget h a = Some (Document d)" "hget h (do_modules d) = Some (ModuleList refs)"
  shows "objects_of h a = {a, do_modules d} \<union> set refs"
  using assms by (simp add: objects_of_def list_at_def)

lemma merge_in_place_aux:
  assumes "separate h lhs rhs"
  shows "\<exists>l r. doc_at h lhs = Some (Some l) \<and> doc_at h rhs = Some (Some r)
    \<and> (case merge_buildinfo (Some l) (Some r) of
          Inl e \<Rightarrow> merge_buildinfo_h h lhs rhs = Inl e
        | Inr res \<Rightarrow>
            \<exists>h'. merge_buildinfo_h h lhs rhs = Inr (lhs, h') \<and> doc_at h' lhs = Some res
              \<and> hget h' lhs = hget h lhs
              \<and> (\<forall>a \<in> objects_of h rhs. hget h' a = hget h a)
              \<and> doc_at h' rhs = doc_at h rhs)"
proof -
  from assms obtain l r ls rs where
    r: "hget h rhs = Some (Document r)" and
    rs: "hget h (do_modules r) = Some (ModuleList rs)" and
    tr: "list_all (\<lambda>a. module_at h a \<noteq> None) rs" and
    inv: "heap_inv h lhs l ls ({rhs, do_modules r} \<union> set rs)"
    by (rule separate_heap_inv)
  let ?P = "{rhs, do_modules r} \<union> set rs"
  let ?lv = "doc_value l (modules_at h ls)" and ?rv = "doc_value r (modules_at h rs)"
  from inv have l: "hget h lhs = Some (Document l)" by (simp add: heap_inv_def)
  have dl: "doc_at h lhs = Some (Some ?lv)" using inv by (rule doc_at_heap_inv)
  have dr: "doc_at h rhs = Some (Some ?rv)" using r rs tr by (rule doc_at_typed)
  have obj: "objects_of h rhs = ?P" using r rs by (rule objects_of_typed)
  have sim: "case merge_buildinfo (Some ?lv) (Some ?rv) of
          Inl e \<Rightarrow> merge_buildinfo_h h lhs rhs = Inl e
        | Inr res \<Rightarrow>
            \<exists>h'. merge_buildinfo_h h lhs rhs = Inr (lhs, h') \<and> doc_at h' lhs = Some res
              \<and> hget h' lhs = hget h lhs
              \<and> (\<forall>a \<in> ?P. hget h' a = hget h a)
              \<and> doc_at h' rhs = doc_at h rhs"
  proof (cases "do_version l = do_version r \<and> do_name l = do_name r
      \<and> do_number l = do_number r")
    case False
    then show ?thesis
      using l r by (auto simp: merge_buildinfo_def merge_buildinfo_h_def doc_value_def)
  next
    case True
    then have pure: "merge_buildinfo (Some ?lv) (Some ?rv) =
        (case merge_modules ?lv (modules_at h rs) of Inl e \<Rightarrow> Inl e | Inr a \<Rightarrow> Inr (Some a))"
      by (simp add: merge_buildinfo_def doc_value_def)
    from True have heap: "merge_buildinfo_h h lhs rhs =
        (case merge_loop_h h lhs rs of Inl e \<Rightarrow> Inl e | Inr h' \<Rightarrow> Inr (lhs, h'))"
      using l r rs by (simp add: merge_buildinfo_h_def)
    have loop: "case merge_modules ?lv (modules_at h rs) of
           Inl e \<Rightarrow> merge_loop_h h lhs rs = Inl e
         | Inr a' \<Rightarrow> \<exists>h' ls'. merge_loop_h h lhs rs = Inr h' \<and> heap_inv h' lhs l ls' ?P
              \<and> a' = doc_value l (modules_at h' ls') \<and> (\<forall>x \<in> ?P. hget h' x = hget h x)"
      using inv _ tr by (rule merge_loop_h_sim) auto
    show ?thesis
    proof (cases "merge_modules ?lv (modules_at h rs)")
      case (Inl e)
      with loop pure heap show ?thesis by simp
    next
      case (Inr a')
      with loop obtain h' ls' where
        lp: "merge_loop_h h lhs rs = Inr h'" and inv': "heap_inv h' lhs l ls' ?P" and
        a': "a' = doc_value l (modules_at h' ls')" and fr: "\<forall>x \<in> ?P. hget h' x = hget h x"
        by auto
      have "doc_at h' lhs = Some (Some a')"
        using doc_at_heap_inv[OF inv'] a' by simp
      moreover have "hget h' lhs = hget h lhs"
        using inv' l by (simp add: heap_inv_def)
      moreover have "doc_at h' rhs = doc_at h rhs"
      proof -
        from fr r rs have r': "hget h' rhs = Some (Document r)"
          and rs': "hget h' (do_modules r) = Some (ModuleList rs)"
          by simp_all
        from fr tr have tr': "list_all (\<lambda>a. module_at h' a \<noteq> None) rs"
          by (auto simp: list_all_iff module_at_def)
        have "modules_at h' rs = modules_at h rs"
          using fr by (intro modules_at_cong) auto
        with doc_at_typed[OF r' rs' tr'] dr show ?thesis by simp
      qed
      ultimately show ?thesis
        using pure heap Inr lp fr by simp
    qed
  qed
  from dl dr sim show ?thesis unfolding obj by blast
qed

section \<open>Evaluation of the examples\<close>

lemmas ex_defs = doc_x_def doc_y_def doc_b_def doc_n_def doc_other_def doc_of_def
  art_of_def dep_of_def

lemmas run_defs = merge_buildinfo_def merge_module_def find_module_def merge_artifacts_def
  art_get_def new_module_def Let_def

lemmas wf_defs = wf_doc_def wf_module_def unique_keys_def art_get_def compatible_def

lemmas heap_run_defs = merge_buildinfo_h_def merge_step_h_def assign_merged_def
  find_module_h_def hget_def merge_artifacts_def art_get_def new_module_def Let_def

lemmas heap_abs_defs = doc_at_def list_at_def module_at_def modules_at_def objects_of_def
  separate_def document_at_def hget_def

section \<open>Conflicting checksums under one key\<close>

text \<open>
  Claim C1.  The claim: when a module present in both documents holds, under the same
  key, two entries whose checksums differ, the merge raises the conflict error instead
  of silently keeping one entry.  The code does not: the assertion of
  \<^verbatim>\<open>merge_artifacts\<close> compares \<^verbatim>\<open>art[cmp_key]\<close> with \<^verbatim>\<open>ret[art_cmp_key][cmp_key]\<close>, the
  key with itself, so it never fails (lemma \<open>merge_artifacts_no_assert\<close>).  Merging
  \<open>doc_x\<close> (module \<^verbatim>\<open>"m"\<close>, artifact \<^verbatim>\<open>"a"\<close> with \<^verbatim>\<open>sha1 = "X"\<close>) with \<open>doc_y\<close>
  (the same artifact name with \<^verbatim>\<open>sha1 = "Y"\<close>) returns \<open>doc_x\<close>: the left entry is
  kept and no error is raised.
\<close>

theorem merge_conflict_not_detected:
  "merge_buildinfo (Some doc_x) (Some doc_y) = Inr (Some doc_x)"
  by (simp add: ex_defs run_defs)

section \<open>Documents of different build sessions\<close>

text \<open>
  Claim C5.  For two non-empty documents whose \<^verbatim>\<open>version\<close>, \<^verbatim>\<open>name\<close> or \<^verbatim>\<open>number\<close>
  fields differ, the merge fails and returns no document.  The failure is the
  \<^verbatim>\<open>AssertionError\<close> of one of the three bare \<^verbatim>\<open>assert\<close> statements (the error the
  specification names \<^verbatim>\<open>IncompatibleDocumentsError\<close>).
\<close>

theorem merge_buildinfo_incompatible:
  assumes "bi_version l \<noteq> bi_version r \<or> bi_name l \<noteq> bi_name r \<or> bi_number l \<noteq> bi_number r"
  shows "merge_buildinfo (Some l) (Some r) = Inl (AssertionError [])"
  using assms by (auto simp: merge_buildinfo_def)

theorem merge_buildinfo_incompatible_witness:
  "bi_name doc_x \<noteq> bi_name doc_other
   \<and> merge_buildinfo (Some doc_x) (Some doc_other) = Inl (AssertionError [])"
  using merge_buildinfo_incompatible[of doc_x doc_other] by (simp add: ex_defs)

section \<open>Idempotence\<close>

text \<open>
  Claim C7.  For every conflict-free document \<open>d\<close> (module ids unique; in every module
  each artifact has a \<^verbatim>\<open>name\<close>, each dependency an \<^verbatim>\<open>id\<close>, and no two entries of a
  collection share their key), merging \<open>d\<close> with \<open>d\<close> raises no error and returns a
  document equal to \<open>d\<close>.
\<close>

theorem merge_buildinfo_idempotent:
  assumes "wf_doc d"
  shows "merge_buildinfo (Some d) (Some d) = Inr (Some d)"
proof -
  from assms have "distinct (map mod_id (bi_modules d))" "list_all wf_module (bi_modules d)"
    by (simp_all add: wf_doc_def)
  with assms have "merge_modules d (bi_modules d) = Inr d"
    by (simp add: merge_modules_spec merged_modules_self)
  then show ?thesis by (simp add: merge_buildinfo_def)
qed

theorem merge_buildinfo_idempotent_witness:
  "wf_doc doc_b \<and> merge_buildinfo (Some doc_b) (Some doc_b) = Inr (Some doc_b)"
  using merge_buildinfo_idempotent[of doc_b] by (simp add: ex_defs wf_defs)

section \<open>Union of disjoint documents, and keys of one side only\<close>




section \<open>Shared nodes are resolved once per path\<close>

text \<open>
  Claim C2.  The claim: a single closure computation resolves the reference of every
  distinct node exactly once (memoized per node uid).  \<^verbatim>\<open>_gather_deps\<close> keeps no memo:
  it calls the resolver for the node and recurses into every required node, whatever
  has been visited before.  In the diamond the reference of C is resolved twice.
\<close>

theorem diamond_counterexample:
  "map_sum id snd (gather_deps 3 diamond resolve_one ''root'' [])
     = Inr [''root'', ''A'', ''C'', ''B'', ''C'']
   \<and> count_list [''root'', ''A'', ''C'', ''B'', ''C''] ''C'' = 2"
  by (simp add: graph_defs eval_nat_numeral)

text \<open>
  Claim C2 as amended.  On a finite acyclic graph in which every required uid is a
  node and the resolver succeeds, a single closure computation returns for every
  recursion limit from some limit on; the set it returns is the union of the
  resolver's results over the nodes reachable from the start node (a set: every
  artifact once); the nodes whose reference it resolves are exactly the reachable
  ones; and the reference of a node is resolved once for every dependency path
  from the start node to it, not once per node.
\<close>

theorem closure_once_per_path:
  assumes "finite (dom g)" "acyclic (edges g)" "walkable g f" "u \<in> dom g"
  shows "\<exists>d arts new. \<forall>d' \<ge> d.
      gather_deps d' g f u calls = Inr (arts, calls @ new)
      \<and> arts = closure_of g f u
      \<and> set new = {v. (u, v) \<in> (edges g)\<^sup>*}
      \<and> (\<forall>v. count_list new v = count_paths d' g u v)"
proof -
  have "finite (edges g)" using assms(1,3) by (rule edges_finite)
  then have "wf ((edges g)\<inverse>)" using assms(2) by (rule finite_acyclic_wf_converse)
  from gather_deps_total[OF this assms(3,4)] obtain d arts calls' where
    d: "gather_deps d g f u calls = Inr (arts, calls')"
    by (metis surj_pair)
  from gather_deps_calls[OF d] obtain new where new: "calls' = calls @ new" by blast
  have "gather_deps d' g f u calls = Inr (arts, calls @ new)
      \<and> arts = closure_of g f u
      \<and> set new = {v. (u, v) \<in> (edges g)\<^sup>*}
      \<and> (\<forall>v. count_list new v = count_paths d' g u v)" if "d \<le> d'" for d'
  proof -
    from that d new have r: "gather_deps d' g f u calls = Inr (arts, calls @ new)"
      by (auto dest: gather_deps_mono)
    from gather_deps_calls[OF r] have "\<forall>v. count_list new v = count_paths d' g u v" by simp
    moreover from gather_deps_reach[OF r] have "set new = {v. (u, v) \<in> (edges g)\<^sup>*}" by simp
    moreover from gather_deps_arts[OF r] have "arts = closure_of g f u" .
    ultimately show ?thesis using r by simp
  qed
  then show ?thesis by blast
qed

theorem closure_once_per_path_witness:
  "finite (dom diamond) \<and> acyclic (edges diamond) \<and> walkable diamond resolve_one
   \<and> ''root'' \<in> dom diamond
   \<and> (\<exists>d arts new. \<forall>d' \<ge> d.
        gather_deps d' diamond resolve_one ''root'' [] = Inr (arts, [] @ new)
        \<and> arts = closure_of diamond resolve_one ''root''
        \<and> set new = {v. (''root'', v) \<in> (edges diamond)\<^sup>*}
        \<and> (\<forall>v. count_list new v = count_paths d' diamond ''root'' v))"
proof -
  have f: "finite (dom diamond)" and r: "''root'' \<in> dom diamond"
    by (simp_all add: dom_diamond)
  from closure_once_per_path[OF f acyclic_diamond walkable_diamond r, of "[]"]
    f r acyclic_diamond walkable_diamond
  show ?thesis by blast
qed

section \<open>Cycles are not detected\<close>

text \<open>
  Claim C3.  The claim: on a graph with a dependency cycle the traversal ends by
  raising \<^verbatim>\<open>GraphCycleError\<close> instead of recursing without bound.  The source has no
  visited or in-progress marker and raises no such error: on the cycle of X and Y
  it recurses until the interpreter's recursion limit (1000 nested calls by default)
  is used up, which Python reports as \<^verbatim>\<open>RecursionError\<close>.
\<close>

theorem cycle_recursion_counterexample:
  "gather_deps 1000 cycle_xy resolve_one ''X'' [] = Inl RecursionError"
proof -
  have r: "(''X'', ''X'') \<in> (edges cycle_xy)\<^sup>*" by simp
  from cycle_gives_error[OF r cycle_xy_loop, of 1000 resolve_one "[]"]
  show ?thesis
    by (auto simp: walkable_cycle_xy dom_cycle_xy)
qed

text \<open>
  Claim C3 as amended.  When the start node reaches a node that lies on a cycle, the
  traversal returns no closure under any recursion limit: it ends with an error, and
  when every required uid is a node and the resolver succeeds, that error is the
  \<^verbatim>\<open>RecursionError\<close> of the exhausted recursion limit.  No cycle is detected.
\<close>

theorem cycle_not_detected:
  assumes "(u, v) \<in> (edges g)\<^sup>*" "(v, v) \<in> (edges g)\<^sup>+"
  shows "\<exists>e. gather_deps d g f u calls = Inl e
    \<and> (walkable g f \<and> u \<in> dom g \<longrightarrow> e = RecursionError)"
  using assms by (rule cycle_gives_error)

theorem cycle_not_detected_witness:
  "(''X'', ''X'') \<in> (edges cycle_xy)\<^sup>* \<and> (''X'', ''X'') \<in> (edges cycle_xy)\<^sup>+
   \<and> walkable cycle_xy resolve_one \<and> ''X'' \<in> dom cycle_xy
   \<and> gather_deps 5 cycle_xy resolve_one ''X'' [] = Inl RecursionError"
proof -
  have r: "(''X'', ''X'') \<in> (edges cycle_xy)\<^sup>*" by simp
  from cycle_not_detected[OF r cycle_xy_loop, of 5 resolve_one "[]"] r cycle_xy_loop
  show ?thesis
    by (auto simp: walkable_cycle_xy dom_cycle_xy)
qed

section \<open>Equality of artifacts\<close>

text \<open>
  Claim C4.  The claim: two \<^verbatim>\<open>Artifact\<close> values are equal, and collapse to one element
  of a set, if and only if their \<^verbatim>\<open>sha1\<close> fields are equal.  The class overrides
  \<^verbatim>\<open>__hash__\<close> only; equality is the tuple's.  Two artifacts with the same \<^verbatim>\<open>sha1\<close>
  and different names are not equal, a set holds both (even under a hash that
  cannot tell any two strings apart), and the closure of a node keeps two
  dependencies of equal \<^verbatim>\<open>sha1\<close> and different \<^verbatim>\<open>id\<close> apart.
\<close>

theorem same_sha1_counterexample:
  "art_sha1 (art_of ''X'' ''a'') = art_sha1 (art_of ''X'' ''b'')
   \<and> \<not> artifact_eq (art_of ''X'' ''a'') (art_of ''X'' ''b'')
   \<and> set_add zero_hash (art_of ''X'' ''b'') [art_of ''X'' ''a'']
       = [art_of ''X'' ''a'', art_of ''X'' ''b'']
   \<and> map_sum id fst (gather_deps 3 diamond resolve_same ''A'' [])
       = Inr {dep_of ''S'' ''a/1.0 :: conanfile.py'', dep_of ''S'' ''c/1.0 :: conanfile.py''}
   \<and> dep_of ''S'' ''a/1.0 :: conanfile.py'' \<noteq> dep_of ''S'' ''c/1.0 :: conanfile.py''"
  by (simp add: art_of_def dep_of_def artifact_eq_def artifact_hash_def zero_hash_def
      graph_defs resolve_same_def eval_nat_numeral)

text \<open>
  Claim C4 as amended.  Two \<^verbatim>\<open>Artifact\<close> values are equal if and only if all four
  fields are equal; equal artifacts have the same \<^verbatim>\<open>sha1\<close> and the same hash; a set
  that holds \<open>a\<close> stays as it is when \<open>b\<close> is added if and only if \<open>a\<close> and \<open>b\<close> are
  equal in all four fields; \<^verbatim>\<open>update\<close> is the union up to that equality and keeps
  the elements distinct.
\<close>

theorem artifact_identity:
  "(artifact_eq a b \<longleftrightarrow> a = b)
   \<and> (artifact_eq a b \<longrightarrow> art_sha1 a = art_sha1 b \<and> artifact_hash h a = artifact_hash h b)
   \<and> (set_add h b [a] = [a] \<longleftrightarrow> a = b)
   \<and> set (set_update h s xs) = set s \<union> set xs
   \<and> (distinct s \<longrightarrow> distinct (set_update h s xs))"
proof -
  have "artifact_eq a b \<longleftrightarrow> a = b" by (rule artifact_eq_iff)
  moreover have "artifact_eq a b \<longrightarrow> art_sha1 a = art_sha1 b \<and> artifact_hash h a = artifact_hash h b"
    by (simp add: artifact_eq_def artifact_hash_def)
  moreover have "set_add h b [a] = [a] \<longleftrightarrow> a = b"
    unfolding set_add_single by (rule artifact_eq_iff)
  moreover have "set (set_update h s xs) = set s \<union> set xs" by (rule set_set_update)
  moreover have "distinct s \<longrightarrow> distinct (set_update h s xs)"
    by (simp add: set_update_def distinct_fold_set_add)
  ultimately show ?thesis by blast
qed

theorem artifact_identity_witness:
  "artifact_eq (art_of ''X'' ''a'') (art_of ''X'' ''a'')
   \<and> distinct [art_of ''X'' ''a'']
   \<and> set_update zero_hash [art_of ''X'' ''a''] [art_of ''X'' ''a'', art_of ''X'' ''b'']
       = [art_of ''X'' ''a'', art_of ''X'' ''b'']
   \<and> distinct (set_update zero_hash [art_of ''X'' ''a''] [art_of ''X'' ''a'', art_of ''X'' ''b''])"
  using artifact_identity[of "art_of ''X'' ''a''" "art_of ''X'' ''a''" zero_hash
      "[art_of ''X'' ''a'']" "[art_of ''X'' ''a'', art_of ''X'' ''b'']"]
  by (simp add: art_of_def artifact_eq_def artifact_hash_def zero_hash_def set_update_def)

section \<open>Environment variables excluded from the properties\<close>

text \<open>
  Claim C9.  The claim: every environment variable whose name contains
  \<^verbatim>\<open>secret\<close>, \<^verbatim>\<open>key\<close> or \<^verbatim>\<open>password\<close> as a substring is excluded.  The filter is
  \<^verbatim>\<open>k not in excluded\<close> with \<^verbatim>\<open>excluded\<close> a list: membership, not a substring
  test.  The variable \<^verbatim>\<open>my_secret\<close> contains \<^verbatim>\<open>secret\<close> and is included.
\<close>

theorem env_substring_counterexample:
  "sublist ''secret'' ''my_secret''
   \<and> create_properties False [(''my_secret'', ''v''), (''key'', ''w'')]
       = Some [(''buildInfo.env.my_secret'', ''v'')]"
proof -
  have "sublist ''secret'' (''my_'' @ ''secret'' @ [])" by (rule sublist_appendI)
  then show ?thesis by (simp add: create_properties_def environment_def excluded_def)
qed

text \<open>
  Claim C9 as amended.  Without the environment snapshot the document has no
  properties.  With it, the properties hold, under the prefix \<^verbatim>\<open>buildInfo.env.\<close>,
  every environment variable but those named exactly \<^verbatim>\<open>secret\<close>, \<^verbatim>\<open>key\<close> or
  \<^verbatim>\<open>password\<close>, each with its value, and nothing else.
\<close>

theorem env_exact_exclusion:
  "create_properties True environ = None
   \<and> (\<exists>props. create_properties False environ = Some props
        \<and> (\<forall>k. map_of props (''buildInfo.env.'' @ k)
               = (if k \<in> {''secret'', ''key'', ''password''} then None else map_of environ k))
        \<and> fst ` set props
            = ((@) ''buildInfo.env.'') ` (fst ` set environ - {''secret'', ''key'', ''password''}))"
  using map_of_environment[of environ] keys_environment[of environ]
  by (simp add: create_properties_def excluded_def)

theorem env_exact_exclusion_witness:
  "create_properties False [(''my_secret'', ''v''), (''key'', ''w'')]
     = Some [(''buildInfo.env.my_secret'', ''v'')]
   \<and> map_of [(''buildInfo.env.my_secret'', ''v'')] (''buildInfo.env.'' @ ''key'') = None
   \<and> map_of [(''buildInfo.env.my_secret'', ''v'')] (''buildInfo.env.'' @ ''my_secret'') = Some ''v''"
  using env_exact_exclusion[of "[(''my_secret'', ''v''), (''key'', ''w'')]"]
  by (simp add: create_properties_def environment_def excluded_def)

section \<open>The merge writes into its left argument\<close>

text \<open>
  Claim C10.  The claim: for every pair of non-empty documents the merge returns the
  left document object, mutated in place, and leaves the right document entirely
  unmodified.  That depends on the two arguments sharing no object.  When one
  document object is passed on both sides and a module of it holds two artifacts of
  the same name, the merge replaces the artifact list of that module by a shorter
  one: the right document, which is the left one, is not what it was.
\<close>

theorem merge_aliased_counterexample:
  "merge_buildinfo_h heap_dup 2 2
     = Inr (2, heap_dup[0 := Module \<lparr>mod_id = ''m'', mod_artifacts = [art_of ''Y'' ''a''],
                          mod_dependencies = []\<rparr>])
   \<and> doc_at (heap_dup[0 := Module \<lparr>mod_id = ''m'', mod_artifacts = [art_of ''Y'' ''a''],
                          mod_dependencies = []\<rparr>]) 2
       \<noteq> doc_at heap_dup 2"
  by (simp add: heap_dup_def doc_obj_of_def art_of_def heap_run_defs heap_abs_defs)

text \<open>
  Claim C10 as amended.  For every pair of non-empty documents that are separate (two
  lists of modules, no module dictionary in both, as two documents read from two
  files are), the merge on the store fails exactly when the merge of the two
  document values fails, with the same error; otherwise it returns the reference
  of the left document, whose dictionary object is the same as before and whose
  value is now the merged document (modules it lacked appended to its list, the
  artifact and dependency lists of its modules replaced), while the dictionary, the
  list of modules and every module dictionary of the right document are unchanged,
  and so is the value of the right document.
\<close>

theorem merge_in_place_separate:
  assumes "separate h lhs rhs"
  shows "\<exists>l r. doc_at h lhs = Some (Some l) \<and> doc_at h rhs = Some (Some r)
    \<and> (case merge_buildinfo (Some l) (Some r) of
          Inl e \<Rightarrow> merge_buildinfo_h h lhs rhs = Inl e
        | Inr res \<Rightarrow>
            \<exists>h'. merge_buildinfo_h h lhs rhs = Inr (lhs, h') \<and> doc_at h' lhs = Some res
              \<and> hget h' lhs = hget h lhs
              \<and> (\<forall>a \<in> objects_of h rhs. hget h' a = hget h a)
              \<and> doc_at h' rhs = doc_at h rhs)"
  using assms by (rule merge_in_place_aux)

theorem merge_in_place_separate_witness:
  "separate heap_two 2 5
   \<and> (\<exists>h'. merge_buildinfo_h heap_two 2 5 = Inr (2, h')
         \<and> hget h' 2 = hget heap_two 2
         \<and> hget h' 3 = hget heap_two 3 \<and> hget h' 4 = hget heap_two 4
         \<and> hget h' 5 = hget heap_two 5
         \<and> doc_at h' 5 = doc_at heap_two 5
         \<and> map_option (map_option (map mod_id \<circ> bi_modules)) (doc_at h' 2)
             = Some (Some [''m'', ''n'']))"
proof -
  have s: "separate heap_two 2 5"
    by (simp add: heap_two_def doc_obj_of_def heap_abs_defs)
  have l: "doc_at heap_two 2 = Some (Some (doc_of ''build''
      [\<lparr>mod_id = ''m'', mod_artifacts = [art_of ''X'' ''a''], mod_dependencies = []\<rparr>]))"
    by (simp add: heap_two_def doc_obj_of_def heap_abs_defs doc_of_def)
  have r: "doc_at heap_two 5 = Some (Some (doc_of ''build''
      [\<lparr>mod_id = ''n'', mod_artifacts = [art_of ''N'' ''c''], mod_dependencies = []\<rparr>]))"
    by (simp add: heap_two_def doc_obj_of_def heap_abs_defs doc_of_def)
  have m: "merge_buildinfo
      (Some (doc_of ''build''
        [\<lparr>mod_id = ''m'', mod_artifacts = [art_of ''X'' ''a''], mod_dependencies = []\<rparr>]))
      (Some (doc_of ''build''
        [\<lparr>mod_id = ''n'', mod_artifacts = [art_of ''N'' ''c''], mod_dependencies = []\<rparr>]))
    = Inr (Some (doc_of ''build''
        [\<lparr>mod_id = ''m'', mod_artifacts = [art_of ''X'' ''a''], mod_dependencies = []\<rparr>,
         \<lparr>mod_id = ''n'', mod_artifacts = [art_of ''N'' ''c''], mod_dependencies = []\<rparr>]))"
    by (simp add: doc_of_def art_of_def run_defs)
  have o: "objects_of heap_two 5 = {5, 4, 3}"
    by (auto simp: heap_two_def doc_obj_of_def heap_abs_defs)
  from merge_in_place_separate[OF s] l r m o show ?thesis
    using s by (auto simp: doc_of_def)
qed

end
